theory Spec2Isabelle
  imports Main "HOL-Library.FSet" "HOL-Library.Sublist" "HOL-Library.Multiset"
begin

section \<open>Leaves, positions and path steps\<close>

text \<open>
  The reflow utilities of sqlfluff (\<^verbatim>\<open>utils/reflow/depthmap.py\<close> and
  \<^verbatim>\<open>utils/reflow/elements.py\<close>) work on segments of the parse tree. The segment classes
  themselves live in \<^verbatim>\<open>sqlfluff.core.parser\<close>; the records below hold exactly the attributes
  the two reflow files read: the uuid, the set of class types asked by \<^verbatim>\<open>is_type\<close>, the raw
  text, the (optional) position marker with its working line and column, and \<^verbatim>\<open>is_code\<close>.
  Two segment values are the same segment when they are equal as records (the uuid is one
  of the fields).
\<close>

datatype error =
    AssertionError
  | IndexError
  | ValueError
  | AttributeError
  | NotImplementedError

record PosMarker =
  working_line_no :: int
  working_line_pos :: int

definition working_loc :: "PosMarker \<Rightarrow> int \<times> int" where
  "working_loc pm = (working_line_no pm, working_line_pos pm)"

record BaseSegment =
  uuid :: nat
  class_types :: "string fset"
  raw :: string
  pos_marker :: "PosMarker option"
  is_code :: bool

type_synonym RawSegment = BaseSegment

text \<open>\<^verbatim>\<open>seg.is_type(*seg_type)\<close>: one of the given types is among the class types.\<close>

definition is_type :: "BaseSegment \<Rightarrow> string list \<Rightarrow> bool" where
  "is_type seg seg_type = list_ex (\<lambda>t. t |\<in>| class_types seg) seg_type"

text \<open>\<^verbatim>\<open>seg.is_type(t)\<close> for an \<^verbatim>\<open>Optional[str]\<close>: \<^verbatim>\<open>None\<close> is no class type.\<close>

definition is_type_opt :: "BaseSegment \<Rightarrow> string option \<Rightarrow> bool" where
  "is_type_opt seg t = (case t of None \<Rightarrow> False | Some ty \<Rightarrow> is_type seg [ty])"

record PathStep =
  segment :: BaseSegment
  idx :: int
  len :: int

section \<open>depthmap.py\<close>

definition stack_pos_interpreter :: "PathStep \<Rightarrow> string" where
  "stack_pos_interpreter path_step =
     (if idx path_step = 0 \<and> idx path_step = len path_step - 1 then ''solo''
      else if idx path_step = 0 then ''start''
      else if idx path_step = len path_step - 1 then ''end''
      else '''')"

record DepthInfo =
  stack_depth :: int
  stack_hashes :: "int list"
  stack_hash_set :: "int fset"
  stack_class_types :: "string fset list"
  stack_positions :: "string list"

text \<open>
  \<^verbatim>\<open>DepthInfo.from_raw_and_stack\<close>. The hash of a segment (\<^verbatim>\<open>BaseSegment.__hash__\<close>) is
  defined outside the two files; it is the parameter \<open>hash_of\<close>.
\<close>

definition from_raw_and_stack ::
  "(BaseSegment \<Rightarrow> int) \<Rightarrow> RawSegment \<Rightarrow> PathStep list \<Rightarrow> DepthInfo" where
  "from_raw_and_stack hash_of raw_seg stack =
     (let hashes = map (\<lambda>ps. hash_of (segment ps)) stack in
      \<lparr> stack_depth = int (length stack),
        stack_hashes = hashes,
        stack_hash_set = fset_of_list hashes,
        stack_class_types = map (\<lambda>ps. class_types (segment ps)) stack,
        stack_positions = map stack_pos_interpreter stack \<rparr>)"

text \<open>
  \<^verbatim>\<open>DepthInfo.common_with\<close>: the intersection of this side's hash set with the other
  side's hashes; the assertion that it is not empty; this side's hashes cut to the size
  of the intersection.
\<close>

definition common_with :: "DepthInfo \<Rightarrow> DepthInfo \<Rightarrow> error + int list" where
  "common_with self other =
     (let common_hashes = stack_hash_set self |\<inter>| fset_of_list (stack_hashes other) in
      if common_hashes = {||} then Inl AssertionError
      else Inr (take (fcard common_hashes) (stack_hashes self)))"

text \<open>
  Modelled from the spec: the parse tree and the ancestor path of a leaf
  (\<^verbatim>\<open>path_to\<close> and \<^verbatim>\<open>raw_segments_with_ancestors\<close> of a segment are outside the two
  files). A node holds its segment and its children; a leaf is a node without children.
  The "ancestor path" is the "root-to-leaf sequence of (node, sibling-index,
  sibling-count)": \<open>path_in t stack l\<close> says that \<open>stack\<close> is the path from the root of
  \<open>t\<close> down to its leaf \<open>l\<close>. \<open>tree_hashes\<close> lists the hashes of all nodes of a tree.
\<close>

datatype seg_tree = Node (node_segment: BaseSegment) (node_children: "seg_tree list")

inductive path_in :: "seg_tree \<Rightarrow> PathStep list \<Rightarrow> RawSegment \<Rightarrow> bool" where
  leaf: "path_in (Node s []) [] s"
| step: "i < length cs \<Longrightarrow> path_in (cs ! i) stack l \<Longrightarrow>
         path_in (Node s cs) (\<lparr> segment = s, idx = int i, len = int (length cs) \<rparr> # stack) l"

fun tree_hashes :: "(BaseSegment \<Rightarrow> int) \<Rightarrow> seg_tree \<Rightarrow> int list" where
  "tree_hashes hash_of (Node s cs) = hash_of s # concat (map (tree_hashes hash_of) cs)"

section \<open>elements.py: blocks, points and fixes\<close>

record ReflowElement =
  segments :: "RawSegment list"

record ReflowBlock = ReflowElement +
  spacing_before :: string
  spacing_after :: string
  depth_info :: DepthInfo
  stack_spacing_configs :: "int \<rightharpoonup> string"

type_synonym ReflowPoint = ReflowElement

text \<open>
  An edit (\<^verbatim>\<open>LintFix\<close>, from \<^verbatim>\<open>sqlfluff.core.rules.base\<close>) is kept as the three values the
  reflow code passes to it and reads back: the kind of edit, the anchor and the optional
  payload.
\<close>

record LintFix =
  edit_type :: string
  anchor :: BaseSegment
  edit :: "BaseSegment list option"

definition LintFix_delete :: "BaseSegment \<Rightarrow> LintFix" where
  "LintFix_delete s = \<lparr> edit_type = ''delete'', anchor = s, edit = None \<rparr>"

text \<open>
  Modelled from the spec: \<^verbatim>\<open>WhitespaceSegment()\<close> (from \<^verbatim>\<open>sqlfluff.core.parser\<close>) is the
  synthetic leaf the engine inserts, "an inserted whitespace token": of type whitespace,
  one space wide, not code, and without a source position until it is placed. Every call
  makes a new leaf; its uuid is the argument.
\<close>

definition WhitespaceSegment :: "nat \<Rightarrow> RawSegment" where
  "WhitespaceSegment u =
     \<lparr> uuid = u, class_types = {|''whitespace''|}, raw = '' '', pos_marker = None,
       is_code = False \<rparr>"

text \<open>
  What the reflow code asks of the parse tree and of position markers is passed in:
  \<^verbatim>\<open>path_to\<close>, \<^verbatim>\<open>recursive_crawl\<close> and \<^verbatim>\<open>raw_segments\<close> of a segment,
  \<^verbatim>\<open>working_loc_after\<close> of a position marker, and \<^verbatim>\<open>edit\<close> of a raw segment (a copy of the
  leaf with a new raw text).
\<close>

record tree_ops =
  path_to :: "BaseSegment \<Rightarrow> BaseSegment \<Rightarrow> PathStep list"
  recursive_crawl :: "BaseSegment \<Rightarrow> string \<Rightarrow> BaseSegment list"
  raw_segments :: "BaseSegment \<Rightarrow> RawSegment list"
  working_loc_after :: "PosMarker \<Rightarrow> string \<Rightarrow> int \<times> int"
  edit_raw :: "RawSegment \<Rightarrow> string \<Rightarrow> RawSegment"

text \<open>\<^verbatim>\<open>xs.index(x)\<close>: the first position of \<open>x\<close>, or nothing where Python raises.\<close>

fun list_index :: "'a list \<Rightarrow> 'a \<Rightarrow> nat option" where
  "list_index [] x = None"
| "list_index (y # ys) x = (if y = x then Some 0 else map_option Suc (list_index ys x))"

subsection \<open>\<^verbatim>\<open>ReflowPoint._determine_constraints\<close>\<close>

definition determine_constraints ::
  "ReflowBlock option \<Rightarrow> ReflowBlock option \<Rightarrow> bool \<Rightarrow> error + (string \<times> string \<times> bool)" where
  "determine_constraints prev_block next_block strip_newlines =
     (let pre_constraint = (case prev_block of Some pb \<Rightarrow> spacing_after pb | None \<Rightarrow> ''single'');
          post_constraint = (case next_block of Some nb \<Rightarrow> spacing_before nb | None \<Rightarrow> ''single'')
      in case (prev_block, next_block) of
           (Some pb, Some nb) \<Rightarrow>
             (case common_with (depth_info pb) (depth_info nb) of
                Inl e \<Rightarrow> Inl e
              | Inr common \<Rightarrow>
                  if common = [] then Inl IndexError
                  else
                    (case stack_spacing_configs pb (last common) of
                       None \<Rightarrow> Inr (pre_constraint, post_constraint, strip_newlines)
                     | Some within_constraint \<Rightarrow>
                         if within_constraint = [] then
                           Inr (pre_constraint, post_constraint, strip_newlines)
                         else if within_constraint = ''touch'' \<or> within_constraint = ''inline'' then
                           Inr (if pre_constraint \<noteq> ''any'' then ''touch'' else pre_constraint,
                                if post_constraint \<noteq> ''any'' then ''touch'' else post_constraint,
                                if within_constraint = ''inline'' then True else strip_newlines)
                         else
                           (case list_index (stack_hashes (depth_info pb)) (last common) of
                              None \<Rightarrow> Inl ValueError
                            | Some i \<Rightarrow>
                                if i < length (stack_class_types (depth_info pb))
                                then Inl NotImplementedError else Inl IndexError)))
         | _ \<Rightarrow> Inr (pre_constraint, post_constraint, strip_newlines))"

subsection \<open>\<^verbatim>\<open>ReflowPoint._process_spacing\<close>\<close>

text \<open>
  The loop over the buffer; its state is the removal buffer and the pending whitespace
  run \<^verbatim>\<open>last_whitespace\<close>.
\<close>

fun process_spacing_loop ::
  "bool \<Rightarrow> RawSegment list \<Rightarrow> RawSegment list \<Rightarrow> RawSegment list
     \<Rightarrow> RawSegment list \<times> RawSegment list" where
  "process_spacing_loop strip_newlines [] removal_buffer last_whitespace =
     (removal_buffer, last_whitespace)"
| "process_spacing_loop strip_newlines (seg # rest) removal_buffer last_whitespace =
     (if is_type seg [''whitespace''] then
        process_spacing_loop strip_newlines rest removal_buffer (last_whitespace @ [seg])
      else if is_type seg [''newline'', ''end_of_file''] then
        (if strip_newlines \<and> is_type seg [''newline''] then
           process_spacing_loop strip_newlines rest (removal_buffer @ [seg]) last_whitespace
         else
           process_spacing_loop strip_newlines rest
             (if last_whitespace \<noteq> [] then removal_buffer @ last_whitespace else removal_buffer)
             [])
      else process_spacing_loop strip_newlines rest removal_buffer last_whitespace)"

definition process_spacing ::
  "RawSegment list \<Rightarrow> bool \<Rightarrow> RawSegment list \<times> RawSegment list \<times> LintFix list" where
  "process_spacing segment_buffer strip_newlines =
     (case process_spacing_loop strip_newlines segment_buffer [] [] of
        (removal_buffer, last_whitespace) \<Rightarrow>
          let removal_buffer' =
                (if length last_whitespace \<ge> 2 then removal_buffer @ drop 1 last_whitespace
                 else removal_buffer)
          in (filter (\<lambda>s. s \<notin> set removal_buffer') segment_buffer,
              last_whitespace,
              map LintFix_delete removal_buffer'))"

subsection \<open>\<^verbatim>\<open>ReflowPoint._determine_aligned_inline_spacing\<close>\<close>

text \<open>
  The search for the segment to align within: the path to the next leaf is walked from
  the leaf upwards (the caller passes the reversed path); every step of type \<open>within\<close>
  replaces the parent found so far, and the walk stops after the first step of type
  \<open>boundary\<close>.
\<close>

fun align_parent ::
  "PathStep list \<Rightarrow> string option \<Rightarrow> string option \<Rightarrow> BaseSegment option
     \<Rightarrow> BaseSegment option" where
  "align_parent [] align_within align_boundary parent_segment = parent_segment"
| "align_parent (ps # rest) align_within align_boundary parent_segment =
     (let parent_segment' =
            (if is_type_opt (segment ps) align_within then Some (segment ps)
             else parent_segment)
      in if is_type_opt (segment ps) align_boundary then parent_segment'
         else align_parent rest align_within align_boundary parent_segment')"

text \<open>The siblings: what the crawl finds, without those behind a boundary.\<close>

definition align_siblings ::
  "tree_ops \<Rightarrow> BaseSegment \<Rightarrow> string \<Rightarrow> string option \<Rightarrow> BaseSegment list" where
  "align_siblings ops parent_segment segment_type align_boundary =
     filter (\<lambda>sibling. \<not> list_ex (\<lambda>ps. is_type_opt (segment ps) align_boundary)
                                  (path_to ops parent_segment sibling))
            (recursive_crawl ops parent_segment segment_type)"

text \<open>
  \<^verbatim>\<open>any(...)\<close> over the siblings: one on the line of the next leaf, at another column.
  Reading a position off a segment that has none raises.
\<close>

fun sibling_on_same_line :: "BaseSegment list \<Rightarrow> RawSegment \<Rightarrow> error + bool" where
  "sibling_on_same_line [] next_seg = Inr False"
| "sibling_on_same_line (sibling # rest) next_seg =
     (case pos_marker sibling of
        None \<Rightarrow> Inl AttributeError
      | Some sp \<Rightarrow>
          (case pos_marker next_seg of
             None \<Rightarrow> Inl AttributeError
           | Some np \<Rightarrow>
               if working_line_no sp = working_line_no np
                  \<and> working_line_pos sp \<noteq> working_line_pos np
               then Inr True
               else sibling_on_same_line rest next_seg))"

text \<open>The inner loop, over the siblings, for one leaf \<open>seg\<close> of the parent.\<close>

fun align_inner_loop ::
  "tree_ops \<Rightarrow> RawSegment \<Rightarrow> RawSegment option \<Rightarrow> BaseSegment list \<Rightarrow> int \<Rightarrow> error + int" where
  "align_inner_loop ops seg last_code [] max_desired_line_pos = Inr max_desired_line_pos"
| "align_inner_loop ops seg last_code (sibling # rest) max_desired_line_pos =
     (case pos_marker seg of
        None \<Rightarrow> Inl AttributeError
      | Some seg_pm \<Rightarrow>
          (case pos_marker sibling of
             None \<Rightarrow> Inl AttributeError
           | Some sib_pm \<Rightarrow>
               if working_loc seg_pm = working_loc sib_pm then
                 (case last_code of
                    None \<Rightarrow> align_inner_loop ops seg last_code rest max_desired_line_pos
                  | Some lc \<Rightarrow>
                      (case pos_marker lc of
                         None \<Rightarrow> Inl AttributeError
                       | Some lc_pm \<Rightarrow>
                           let loc = working_loc_after ops lc_pm (raw lc) in
                           align_inner_loop ops seg last_code rest
                             (if snd loc > max_desired_line_pos then snd loc
                              else max_desired_line_pos)))
               else align_inner_loop ops seg last_code rest max_desired_line_pos))"

text \<open>The outer loop, over the leaves of the parent, which keeps the last code leaf.\<close>

fun align_outer_loop ::
  "tree_ops \<Rightarrow> RawSegment list \<Rightarrow> BaseSegment list \<Rightarrow> RawSegment option \<Rightarrow> int
     \<Rightarrow> error + int" where
  "align_outer_loop ops [] siblings last_code max_desired_line_pos = Inr max_desired_line_pos"
| "align_outer_loop ops (seg # rest) siblings last_code max_desired_line_pos =
     (case align_inner_loop ops seg last_code siblings max_desired_line_pos of
        Inl e \<Rightarrow> Inl e
      | Inr m \<Rightarrow>
          align_outer_loop ops rest siblings (if is_code seg then Some seg else last_code) m)"

definition determine_aligned_inline_spacing ::
  "tree_ops \<Rightarrow> BaseSegment \<Rightarrow> RawSegment \<Rightarrow> RawSegment \<Rightarrow> string \<Rightarrow> string option
     \<Rightarrow> string option \<Rightarrow> error + string" where
  "determine_aligned_inline_spacing ops root_segment whitespace_seg next_seg segment_type
       align_within align_boundary =
     (case align_parent (rev (path_to ops root_segment next_seg)) align_within align_boundary None of
        None \<Rightarrow> Inr '' ''
      | Some parent_segment \<Rightarrow>
          (let siblings = align_siblings ops parent_segment segment_type align_boundary in
           case sibling_on_same_line siblings next_seg of
             Inl e \<Rightarrow> Inl e
           | Inr True \<Rightarrow> Inr '' ''
           | Inr False \<Rightarrow>
               (case align_outer_loop ops (raw_segments ops parent_segment) siblings None 0 of
                  Inl e \<Rightarrow> Inl e
                | Inr max_desired_line_pos \<Rightarrow>
                    (case pos_marker whitespace_seg of
                       None \<Rightarrow> Inl AttributeError
                     | Some ws_pm \<Rightarrow>
                         Inr (replicate (nat (1 + max_desired_line_pos - working_line_pos ws_pm))
                                        CHR '' '')))))"

subsection \<open>\<^verbatim>\<open>ReflowPoint._handle_respace__inline_with_space\<close>\<close>

text \<open>\<^verbatim>\<open>s.split(c)\<close> for a one-character separator.\<close>

fun split_on :: "char \<Rightarrow> string \<Rightarrow> string list" where
  "split_on c [] = [[]]"
| "split_on c (x # xs) =
     (if x = c then [] # split_on c xs
      else (case split_on c xs of
              [] \<Rightarrow> [[x]]
            | w # ws \<Rightarrow> (x # w) # ws))"

definition startswith :: "string \<Rightarrow> string \<Rightarrow> bool" where
  "startswith s pre = (take (length pre) s = pre)"

text \<open>
  The alignment branch: the constraint is split at the colons, the three parts are read,
  the debug message reads the working column of the next block's first leaf, and the
  alignment is worked out.
\<close>

definition aligned_desired_space ::
  "tree_ops \<Rightarrow> string \<Rightarrow> ReflowBlock \<Rightarrow> BaseSegment \<Rightarrow> RawSegment \<Rightarrow> error + string" where
  "aligned_desired_space ops post_constraint next_block root_segment ws_seg =
     (let alignment_config = split_on CHR '':'' post_constraint in
      if length alignment_config < 2 then Inl IndexError
      else
        (let seg_type = alignment_config ! 1;
             align_within = (if length alignment_config > 2 then Some (alignment_config ! 2)
                             else None);
             align_boundary = (if length alignment_config > 3 then Some (alignment_config ! 3)
                               else None)
         in case segments next_block of
              [] \<Rightarrow> Inl IndexError
            | next_seg # _ \<Rightarrow>
                (case pos_marker next_seg of
                   None \<Rightarrow> Inl AttributeError
                 | Some _ \<Rightarrow>
                     determine_aligned_inline_spacing ops root_segment ws_seg next_seg seg_type
                       align_within align_boundary)))"

definition handle_respace_inline_with_space ::
  "tree_ops \<Rightarrow> string \<Rightarrow> string \<Rightarrow> ReflowBlock option \<Rightarrow> BaseSegment \<Rightarrow> RawSegment list
     \<Rightarrow> RawSegment list \<Rightarrow> error + (RawSegment list \<times> LintFix list)" where
  "handle_respace_inline_with_space ops pre_constraint post_constraint next_block root_segment
       segment_buffer last_whitespace =
     (case last_whitespace of
        [] \<Rightarrow> Inl IndexError
      | ws_seg # _ \<Rightarrow>
          (case list_index segment_buffer ws_seg of
             None \<Rightarrow> Inl ValueError
           | Some ws_idx \<Rightarrow>
               if pre_constraint = ''any'' \<or> post_constraint = ''any'' then
                 Inr (segment_buffer, [])
               else if pre_constraint = ''touch'' \<or> post_constraint = ''touch'' then
                 Inr (take ws_idx segment_buffer @ drop (Suc ws_idx) segment_buffer,
                      [\<lparr> edit_type = ''delete'', anchor = ws_seg, edit = None \<rparr>])
               else if (startswith post_constraint ''align'' \<and> next_block \<noteq> None)
                       \<or> (pre_constraint = post_constraint \<and> post_constraint = ''single'') then
                 (case (case next_block of
                          Some nb \<Rightarrow>
                            if startswith post_constraint ''align''
                            then aligned_desired_space ops post_constraint nb root_segment ws_seg
                            else Inr '' ''
                        | None \<Rightarrow> Inr '' '') of
                    Inl e \<Rightarrow> Inl e
                  | Inr desired_space \<Rightarrow>
                      if raw ws_seg \<noteq> desired_space then
                        (let new_seg = edit_raw ops ws_seg desired_space in
                         Inr (segment_buffer[ws_idx := new_seg],
                              [\<lparr> edit_type = ''replace'', anchor = ws_seg,
                                 edit = Some [new_seg] \<rparr>]))
                      else Inr (segment_buffer, []))
               else Inl NotImplementedError))"

subsection \<open>\<^verbatim>\<open>ReflowPoint._handle_respace__inline_without_space\<close>\<close>

text \<open>
  Is a neighbouring leaf itself an insertion (a leaf without position marker)? The leaf
  before is asked first, then the leaf after. Reading the edge leaf of a block without
  segments raises.
\<close>

definition detect_existing_fix ::
  "ReflowBlock option \<Rightarrow> ReflowBlock option \<Rightarrow> error + (string \<times> RawSegment) option" where
  "detect_existing_fix prev_block next_block =
     (let from_next =
            (case next_block of
               None \<Rightarrow> Inr None
             | Some nb \<Rightarrow>
                 (case segments nb of
                    [] \<Rightarrow> Inl IndexError
                  | first # _ \<Rightarrow>
                      if pos_marker first = None then Inr (Some (''before'', first))
                      else Inr None))
      in case prev_block of
           None \<Rightarrow> from_next
         | Some pb \<Rightarrow>
             if segments pb = [] then Inl IndexError
             else if pos_marker (last (segments pb)) = None
               then Inr (Some (''after'', last (segments pb)))
             else from_next)"

text \<open>
  The search \<^verbatim>\<open>for fix in existing_fixes\<close>: the position of the first fix with a non-empty
  payload that holds a leaf with the uuid of the insertion.
\<close>

fun find_existing_fix :: "RawSegment \<Rightarrow> LintFix list \<Rightarrow> nat option" where
  "find_existing_fix insertion [] = None"
| "find_existing_fix insertion (fix # rest) =
     (if (case edit fix of
            None \<Rightarrow> False
          | Some elems \<Rightarrow> elems \<noteq> [] \<and> uuid insertion \<in> set (map uuid elems))
      then Some 0
      else map_option Suc (find_existing_fix insertion rest))"

text \<open>
  The function itself. The two new whitespace leaves (the one put into the buffer and the
  one put into an edit) take their uuids from \<open>u_buf\<close> and \<open>u_fix\<close>. The fix found is
  changed in place in the source; here the list of fixes is returned with that fix
  replaced. Where neither block is given the source builds a \<^verbatim>\<open>NotImplementedError\<close>
  without raising it, and goes on.
\<close>

definition handle_respace_inline_without_space ::
  "string \<Rightarrow> string \<Rightarrow> ReflowBlock option \<Rightarrow> ReflowBlock option \<Rightarrow> RawSegment list
     \<Rightarrow> LintFix list \<Rightarrow> nat \<Rightarrow> nat \<Rightarrow> error + (RawSegment list \<times> LintFix list \<times> bool)" where
  "handle_respace_inline_without_space pre_constraint post_constraint prev_block next_block
       segment_buffer existing_fixes u_buf u_fix =
     (if pre_constraint = ''touch'' \<or> pre_constraint = ''any''
         \<or> post_constraint = ''touch'' \<or> post_constraint = ''any'' then
        Inr (segment_buffer, existing_fixes, False)
      else if pre_constraint = post_constraint \<and> post_constraint = ''single'' then
        (let segment_buffer' = segment_buffer @ [WhitespaceSegment u_buf] in
         case detect_existing_fix prev_block next_block of
           Inl e \<Rightarrow> Inl e
         | Inr (Some (existing_fix, insertion)) \<Rightarrow>
             if existing_fixes = [] then Inl ValueError
             else
               (case find_existing_fix insertion existing_fixes of
                  None \<Rightarrow> Inl ValueError
                | Some i \<Rightarrow>
                    (let fix = existing_fixes ! i;
                         payload = (case edit fix of None \<Rightarrow> [] | Some elems \<Rightarrow> elems);
                         payload' =
                           (if existing_fix = ''before'' then WhitespaceSegment u_fix # payload
                            else if existing_fix = ''after'' then payload @ [WhitespaceSegment u_fix]
                            else payload)
                     in Inr (segment_buffer',
                             existing_fixes[i := fix\<lparr> edit := Some payload' \<rparr>],
                             True)))
         | Inr None \<Rightarrow>
             (let new_fixes =
                    (case prev_block of
                       Some pb \<Rightarrow>
                         [\<lparr> edit_type = ''create_after'', anchor = last (segments pb),
                            edit = Some [WhitespaceSegment u_fix] \<rparr>]
                     | None \<Rightarrow>
                         (case next_block of
                            Some nb \<Rightarrow>
                              [\<lparr> edit_type = ''create_before'', anchor = hd (segments nb),
                                 edit = Some [WhitespaceSegment u_fix] \<rparr>]
                          | None \<Rightarrow> []))
              in Inr (segment_buffer', existing_fixes @ new_fixes, True)))
      else Inl NotImplementedError)"

subsection \<open>\<^verbatim>\<open>ReflowPoint.respace_point\<close>\<close>

text \<open>
  Modelled from the spec: \<^verbatim>\<open>get_start_loc\<close> and \<^verbatim>\<open>get_end_loc\<close> of a segment (from
  \<^verbatim>\<open>sqlfluff.core.parser\<close>) are its "working (post-edit) line/column location" and the
  "location after this leaf's text"; a segment without position marker has neither.
\<close>

definition get_start_loc :: "BaseSegment \<Rightarrow> error + (int \<times> int)" where
  "get_start_loc seg =
     (case pos_marker seg of None \<Rightarrow> Inl AssertionError | Some pm \<Rightarrow> Inr (working_loc pm))"

definition get_end_loc :: "tree_ops \<Rightarrow> BaseSegment \<Rightarrow> error + (int \<times> int)" where
  "get_end_loc ops seg =
     (case pos_marker seg of
        None \<Rightarrow> Inl AssertionError
      | Some pm \<Rightarrow> Inr (working_loc_after ops pm (raw seg)))"

text \<open>Python's order on pairs of integers.\<close>

definition loc_less :: "int \<times> int \<Rightarrow> int \<times> int \<Rightarrow> bool" where
  "loc_less a b = (fst a < fst b \<or> (fst a = fst b \<and> snd a < snd b))"

text \<open>
  The cleanup of the branch with a newline left in the buffer: one whitespace leaf that
  follows a newline leaf of the point, with a gap between the two positions, goes.
\<close>

definition respace_newline_case ::
  "tree_ops \<Rightarrow> RawSegment list \<Rightarrow> RawSegment list \<Rightarrow> RawSegment list \<Rightarrow> LintFix list
     \<Rightarrow> error + (RawSegment list \<times> LintFix list)" where
  "respace_newline_case ops self_segments segment_buffer last_whitespace new_fixes =
     (if length last_whitespace = 1 then
        (let ws_seg = hd last_whitespace in
         case list_index self_segments ws_seg of
           None \<Rightarrow> Inl ValueError
         | Some ws_idx \<Rightarrow>
             if ws_idx > 0 then
               (let prev_seg = self_segments ! (ws_idx - 1) in
                if is_type prev_seg [''newline''] then
                  (case get_end_loc ops prev_seg of
                     Inl e \<Rightarrow> Inl e
                   | Inr end_loc \<Rightarrow>
                       (case get_start_loc ws_seg of
                          Inl e \<Rightarrow> Inl e
                        | Inr start_loc \<Rightarrow>
                            if loc_less end_loc start_loc then
                              (if ws_seg \<in> set segment_buffer
                               then Inr (remove1 ws_seg segment_buffer,
                                         new_fixes @ [\<lparr> edit_type = ''delete'', anchor = ws_seg,
                                                        edit = None \<rparr>])
                               else Inl ValueError)
                            else Inr (segment_buffer, new_fixes)))
                else Inr (segment_buffer, new_fixes))
             else Inr (segment_buffer, new_fixes))
      else Inr (segment_buffer, new_fixes))"

definition respace_point ::
  "tree_ops \<Rightarrow> ReflowPoint \<Rightarrow> ReflowBlock option \<Rightarrow> ReflowBlock option \<Rightarrow> BaseSegment
     \<Rightarrow> LintFix list \<Rightarrow> bool \<Rightarrow> nat \<Rightarrow> nat \<Rightarrow> error + (LintFix list \<times> ReflowPoint)" where
  "respace_point ops self prev_block next_block root_segment fixes strip_newlines u_buf u_fix =
     (case determine_constraints prev_block next_block strip_newlines of
        Inl e \<Rightarrow> Inl e
      | Inr (pre_constraint, post_constraint, strip_newlines') \<Rightarrow>
          (case process_spacing (segments self) strip_newlines' of
             (segment_buffer, last_whitespace, new_fixes) \<Rightarrow>
               if list_ex (\<lambda>seg. is_type seg [''newline'', ''end_of_file'']) segment_buffer then
                 (case respace_newline_case ops (segments self) segment_buffer last_whitespace
                         new_fixes of
                    Inl e \<Rightarrow> Inl e
                  | Inr (segment_buffer', new_fixes') \<Rightarrow>
                      Inr (fixes @ new_fixes', \<lparr> segments = segment_buffer' \<rparr>))
               else if last_whitespace \<noteq> [] then
                 (case handle_respace_inline_with_space ops pre_constraint post_constraint
                         next_block root_segment segment_buffer last_whitespace of
                    Inl e \<Rightarrow> Inl e
                  | Inr (segment_buffer', delta_fixes) \<Rightarrow>
                      Inr (fixes @ (new_fixes @ delta_fixes), \<lparr> segments = segment_buffer' \<rparr>))
               else
                 (case handle_respace_inline_without_space pre_constraint post_constraint
                         prev_block next_block segment_buffer fixes u_buf u_fix of
                    Inl e \<Rightarrow> Inl e
                  | Inr (segment_buffer', fixes', edited) \<Rightarrow>
                      Inr (fixes' @ new_fixes, \<lparr> segments = segment_buffer' \<rparr>))))"

section \<open>Example values\<close>

text \<open>
  A small tree used to run the definitions: a file node over two statement nodes, each
  over one leaf. The hash of a node is taken to be its uuid.
\<close>

definition ex_hash :: "BaseSegment \<Rightarrow> int" where
  "ex_hash seg = int (uuid seg)"

definition ex_node :: "nat \<Rightarrow> string \<Rightarrow> BaseSegment" where
  "ex_node u ty =
     \<lparr> uuid = u, class_types = {|ty|}, raw = ''x'',
       pos_marker = Some \<lparr> working_line_no = 1, working_line_pos = 1 \<rparr>, is_code = True \<rparr>"

definition ex_step :: "nat \<Rightarrow> string \<Rightarrow> int \<Rightarrow> int \<Rightarrow> PathStep" where
  "ex_step u ty i n = \<lparr> segment = ex_node u ty, idx = i, len = n \<rparr>"

definition ex_tree :: seg_tree where
  "ex_tree =
     Node (ex_node 1 ''file'')
       [Node (ex_node 2 ''statement'') [Node (ex_node 4 ''word'') []],
        Node (ex_node 3 ''statement'') [Node (ex_node 5 ''word'') []]]"

definition ex_stack_a :: "PathStep list" where
  "ex_stack_a = [ex_step 1 ''file'' 0 2, ex_step 2 ''statement'' 0 1]"

definition ex_stack_b :: "PathStep list" where
  "ex_stack_b = [ex_step 1 ''file'' 1 2, ex_step 3 ''statement'' 0 1]"

text \<open>A path of another tree.\<close>

definition ex_stack_c :: "PathStep list" where
  "ex_stack_c = [ex_step 7 ''file'' 0 2, ex_step 8 ''statement'' 0 1]"

definition ex_depth_a :: DepthInfo where
  "ex_depth_a = from_raw_and_stack ex_hash (ex_node 4 ''word'') ex_stack_a"

definition ex_depth_b :: DepthInfo where
  "ex_depth_b = from_raw_and_stack ex_hash (ex_node 5 ''word'') ex_stack_b"

definition ex_depth_c :: DepthInfo where
  "ex_depth_c = from_raw_and_stack ex_hash (ex_node 9 ''word'') ex_stack_c"

text \<open>Two blocks over the leaves of that tree; the file node asks for \<^verbatim>\<open>inline\<close> spacing within.\<close>

definition ex_block_prev :: ReflowBlock where
  "ex_block_prev =
     \<lparr> segments = [ex_node 4 ''word''], spacing_before = ''single'', spacing_after = ''single'',
       depth_info = ex_depth_a, stack_spacing_configs = [1 \<mapsto> ''inline''] \<rparr>"

definition ex_block_next :: ReflowBlock where
  "ex_block_next =
     \<lparr> segments = [ex_node 5 ''word''], spacing_before = ''any'', spacing_after = ''single'',
       depth_info = ex_depth_b, stack_spacing_configs = [1 \<mapsto> ''inline''] \<rparr>"

section \<open>Notions used in the statements and proofs\<close>

text \<open>
  What the loop of \<^verbatim>\<open>_process_spacing\<close> does with a leaf depends on its kind: it joins
  the pending run (whitespace), it is a newline being stripped, it ends the pending run
  (a newline that stays, or the end of file), or it is passed over.
\<close>

datatype leaf_kind = Whitespace | Stripped | Break | Other

definition spacing_kind :: "bool \<Rightarrow> RawSegment \<Rightarrow> leaf_kind" where
  "spacing_kind strip s =
     (if is_type s [''whitespace''] then Whitespace
      else if is_type s [''newline'', ''end_of_file''] then
        (if strip \<and> is_type s [''newline''] then Stripped else Break)
      else Other)"

text \<open>The leaves the loop can mark for removal.\<close>

definition removable :: "bool \<Rightarrow> RawSegment \<Rightarrow> bool" where
  "removable strip s = (spacing_kind strip s = Whitespace \<or> spacing_kind strip s = Stripped)"

text \<open>The removal buffer at the end of \<^verbatim>\<open>_process_spacing\<close>.\<close>

definition removal_of :: "RawSegment list \<Rightarrow> bool \<Rightarrow> RawSegment list" where
  "removal_of buf strip =
     fst (process_spacing_loop strip buf [] []) @ drop 1 (snd (process_spacing_loop strip buf [] []))"

text \<open>A point's buffer to run the spacing processor on: two spaces, a newline, two more runs of spaces.\<close>

definition ex_ws :: "nat \<Rightarrow> int \<Rightarrow> RawSegment" where
  "ex_ws u col =
     \<lparr> uuid = u, class_types = {|''whitespace''|}, raw = ''  '',
       pos_marker = Some \<lparr> working_line_no = 1, working_line_pos = col \<rparr>, is_code = False \<rparr>"

definition ex_nl :: "nat \<Rightarrow> RawSegment" where
  "ex_nl u =
     \<lparr> uuid = u, class_types = {|''newline''|}, raw = [CHR 0x0A],
       pos_marker = Some \<lparr> working_line_no = 1, working_line_pos = 3 \<rparr>, is_code = False \<rparr>"

definition ex_buffer :: "RawSegment list" where
  "ex_buffer = [ex_ws 10 1, ex_nl 11, ex_ws 12 1, ex_ws 13 3]"

text \<open>The test of the search for the pending fix: the payload of the fix holds a leaf with the uuid of the insertion.\<close>

definition holds_insertion :: "RawSegment \<Rightarrow> LintFix \<Rightarrow> bool" where
  "holds_insertion insertion fix =
     (case edit fix of None \<Rightarrow> False | Some elems \<Rightarrow> uuid insertion \<in> set (map uuid elems))"

text \<open>
  Tree operations to run a point with: an empty tree, the position after a text without
  line break, and an edit that gives the copy a new uuid.
\<close>

definition ex_ops :: tree_ops where
  "ex_ops =
     \<lparr> path_to = (\<lambda>_ _. []), recursive_crawl = (\<lambda>_ _. []), raw_segments = (\<lambda>_. []),
       working_loc_after = (\<lambda>pm r. (working_line_no pm, working_line_pos pm + int (length r))),
       edit_raw = (\<lambda>seg r. seg\<lparr> raw := r, uuid := uuid seg + 1000 \<rparr>) \<rparr>"

definition ex_root :: BaseSegment where
  "ex_root = ex_node 1 ''file''"

text \<open>More blocks: one that asks to touch, one without any override, one made of a pending insertion.\<close>

definition ex_block_next_touch :: ReflowBlock where
  "ex_block_next_touch =
     \<lparr> segments = [ex_node 5 ''word''], spacing_before = ''touch'', spacing_after = ''single'',
       depth_info = ex_depth_b, stack_spacing_configs = [1 \<mapsto> ''inline''] \<rparr>"

definition ex_block_plain :: ReflowBlock where
  "ex_block_plain =
     \<lparr> segments = [ex_node 4 ''word''], spacing_before = ''single'', spacing_after = ''single'',
       depth_info = ex_depth_a, stack_spacing_configs = Map.empty \<rparr>"

definition ex_synthetic :: RawSegment where
  "ex_synthetic =
     \<lparr> uuid = 20, class_types = {|''keyword''|}, raw = ''AS'', pos_marker = None, is_code = True \<rparr>"

definition ex_block_synthetic :: ReflowBlock where
  "ex_block_synthetic =
     \<lparr> segments = [ex_synthetic], spacing_before = ''single'', spacing_after = ''single'',
       depth_info = ex_depth_a, stack_spacing_configs = Map.empty \<rparr>"

text \<open>The pending edit that inserts the synthetic leaf.\<close>

definition ex_pending_fix :: LintFix where
  "ex_pending_fix =
     \<lparr> edit_type = ''create_after'', anchor = ex_node 4 ''word'', edit = Some [ex_synthetic] \<rparr>"

text \<open>
  The steps of a path that the search for the alignment scope looks at: from the leaf
  upwards, up to and including the first step of the boundary type.
\<close>

definition searched_steps :: "PathStep list \<Rightarrow> string option \<Rightarrow> PathStep list" where
  "searched_steps path align_boundary =
     takeWhile (\<lambda>ps. \<not> is_type_opt (segment ps) align_boundary) (rev path)
     @ take 1 (dropWhile (\<lambda>ps. \<not> is_type_opt (segment ps) align_boundary) (rev path))"

text \<open>Those of the searched steps whose segment is of the \<open>within\<close> type.\<close>

definition within_matches :: "PathStep list \<Rightarrow> string option \<Rightarrow> string option \<Rightarrow> PathStep list" where
  "within_matches path align_within align_boundary =
     filter (\<lambda>ps. is_type_opt (segment ps) align_within) (searched_steps path align_boundary)"

text \<open>A sibling on the working line of the next leaf, at another column.\<close>

definition same_line_other_column :: "RawSegment \<Rightarrow> BaseSegment \<Rightarrow> bool" where
  "same_line_other_column next_seg sibling =
     (case (pos_marker sibling, pos_marker next_seg) of
        (Some sp, Some np) \<Rightarrow>
          working_line_no sp = working_line_no np \<and> working_line_pos sp \<noteq> working_line_pos np
      | _ \<Rightarrow> False)"

text \<open>
  The end columns recorded for the alignment: the leaves of the scope are scanned in order,
  the last code leaf seen so far is kept, and for every sibling at the working location of
  the leaf at hand the end column of that last code leaf is recorded.
\<close>

fun recorded_end_columns ::
  "tree_ops \<Rightarrow> RawSegment list \<Rightarrow> BaseSegment list \<Rightarrow> RawSegment option \<Rightarrow> int list" where
  "recorded_end_columns ops [] siblings last_code = []"
| "recorded_end_columns ops (seg # rest) siblings last_code =
     (case last_code of
        None \<Rightarrow> []
      | Some lc \<Rightarrow>
          map (\<lambda>sibling. snd (working_loc_after ops (the (pos_marker lc)) (raw lc)))
              (filter (\<lambda>sibling. map_option working_loc (pos_marker seg)
                                    = map_option working_loc (pos_marker sibling)) siblings))
     @ recorded_end_columns ops rest siblings (if is_code seg then Some seg else last_code)"

text \<open>
  A select clause \<^verbatim>\<open>a x bbbb y\<close> with two aliases \<^verbatim>\<open>x\<close> and \<^verbatim>\<open>y\<close>; the second half starts at
  the given line and column.
\<close>

definition ex_leaf :: "nat \<Rightarrow> string \<Rightarrow> string \<Rightarrow> int \<Rightarrow> int \<Rightarrow> bool \<Rightarrow> RawSegment" where
  "ex_leaf u ty text line col code =
     \<lparr> uuid = u, class_types = {|ty|}, raw = text,
       pos_marker = Some \<lparr> working_line_no = line, working_line_pos = col \<rparr>, is_code = code \<rparr>"

definition ex_select :: BaseSegment where
  "ex_select = ex_leaf 30 ''select_clause'' ''a x bbbb y'' 1 1 True"

definition ex_w1 :: RawSegment where
  "ex_w1 = ex_leaf 32 ''whitespace'' '' '' 1 2 False"

definition ex_x :: RawSegment where
  "ex_x = ex_leaf 33 ''alias'' ''x'' 1 3 True"

definition ex_y :: "int \<Rightarrow> int \<Rightarrow> RawSegment" where
  "ex_y line col = ex_leaf 37 ''alias'' ''y'' line (col + 5) True"

definition ex_align_leaves :: "int \<Rightarrow> int \<Rightarrow> RawSegment list" where
  "ex_align_leaves line col =
     [ex_leaf 31 ''word'' ''a'' 1 1 True, ex_w1, ex_x, ex_leaf 34 ''whitespace'' '' '' 1 4 False,
      ex_leaf 35 ''word'' ''bbbb'' line col True,
      ex_leaf 36 ''whitespace'' '' '' line (col + 4) False, ex_y line col]"

definition ex_align_ops :: "int \<Rightarrow> int \<Rightarrow> tree_ops" where
  "ex_align_ops line col =
     \<lparr> path_to = (\<lambda>from to.
          if from = ex_root
          then [\<lparr> segment = ex_root, idx = 0, len = 1 \<rparr>, \<lparr> segment = ex_select, idx = 2, len = 7 \<rparr>]
          else [\<lparr> segment = ex_select, idx = 2, len = 7 \<rparr>]),
       recursive_crawl = (\<lambda>parent ty. if ty = ''alias'' then [ex_x, ex_y line col] else []),
       raw_segments = (\<lambda>parent. ex_align_leaves line col),
       working_loc_after = (\<lambda>pm r. (working_line_no pm, working_line_pos pm + int (length r))),
       edit_raw = (\<lambda>seg r. seg\<lparr> raw := r, uuid := uuid seg + 1000 \<rparr>) \<rparr>"

text \<open>
  The same clause nested in an outer select clause, which goes on with \<^verbatim>\<open>cccccccc z\<close> on a
  third line; and a whitespace leaf far to the right.
\<close>

definition ex_outer :: BaseSegment where
  "ex_outer = ex_leaf 40 ''select_clause'' ''a x bbbb y cccccccc z'' 1 1 True"

definition ex_z :: RawSegment where
  "ex_z = ex_leaf 43 ''alias'' ''z'' 3 10 True"

definition ex_nested_ops :: tree_ops where
  "ex_nested_ops =
     \<lparr> path_to = (\<lambda>from to.
          if from = ex_root
          then [\<lparr> segment = ex_root, idx = 0, len = 1 \<rparr>, \<lparr> segment = ex_outer, idx = 0, len = 1 \<rparr>,
                \<lparr> segment = ex_select, idx = 0, len = 4 \<rparr>]
          else [\<lparr> segment = from, idx = 0, len = 1 \<rparr>]),
       recursive_crawl = (\<lambda>parent ty.
          if ty = ''alias''
          then (if parent = ex_outer then [ex_x, ex_y 2 1, ex_z] else [ex_x, ex_y 2 1])
          else []),
       raw_segments = (\<lambda>parent.
          if parent = ex_outer
          then ex_align_leaves 2 1
               @ [ex_leaf 41 ''word'' ''cccccccc'' 3 1 True, ex_leaf 42 ''whitespace'' '' '' 3 9 False,
                  ex_z]
          else ex_align_leaves 2 1),
       working_loc_after = (\<lambda>pm r. (working_line_no pm, working_line_pos pm + int (length r))),
       edit_raw = (\<lambda>seg r. seg\<lparr> raw := r, uuid := uuid seg + 1000 \<rparr>) \<rparr>"

definition ex_w_far :: RawSegment where
  "ex_w_far = ex_leaf 38 ''whitespace'' '' '' 1 20 False"

section \<open>Results on the depth map\<close>

lemma fcard_fset_of_list_distinct:
  "distinct xs \<Longrightarrow> fcard (fset_of_list xs) = length xs"
  by (simp add: fcard.rep_eq fset_of_list.rep_eq distinct_card)

lemma common_hashes_prefix:
  assumes "distinct (p @ ra)" and "distinct (p @ rb)" and "set ra \<inter> set rb = {}"
  shows "fset_of_list (p @ ra) |\<inter>| fset_of_list (p @ rb) = fset_of_list p"
proof -
  have "set (p @ ra) \<inter> set (p @ rb) = set p"
    using assms by auto
  then have "fset (fset_of_list (p @ ra) |\<inter>| fset_of_list (p @ rb)) = fset (fset_of_list p)"
    by (simp add: fset_of_list.rep_eq)
  then show ?thesis
    by (simp only: fset_inject)
qed

lemma common_with_built:
  assumes a: "map (\<lambda>ps. hash_of (segment ps)) sa = p @ ra"
    and b: "map (\<lambda>ps. hash_of (segment ps)) sb = p @ rb"
    and ne: "p \<noteq> []"
    and da: "distinct (p @ ra)" and db: "distinct (p @ rb)"
    and dis: "set ra \<inter> set rb = {}"
  shows "common_with (from_raw_and_stack hash_of la sa) (from_raw_and_stack hash_of lb sb) = Inr p"
proof -
  have inter: "fset_of_list (p @ ra) |\<inter>| fset_of_list (p @ rb) = fset_of_list p"
    using da db dis by (rule common_hashes_prefix)
  have dp: "distinct p" using da by simp
  have nonempty: "fset_of_list p \<noteq> {||}"
    using ne by (cases p) auto
  have "fcard (fset_of_list p) = length p"
    using dp by (rule fcard_fset_of_list_distinct)
  then show ?thesis
    using inter nonempty
    by (simp add: common_with_def from_raw_and_stack_def Let_def a b)
qed

text \<open>
  Two hash stacks that start with the same non-empty run \<open>p\<close>, never repeat a hash and
  share nothing after \<open>p\<close>: \<^verbatim>\<open>common_with\<close> returns \<open>p\<close>.
\<close>

lemma common_with_stacks:
  assumes "map (\<lambda>ps. hash_of (segment ps)) sa = p @ ra"
    and "map (\<lambda>ps. hash_of (segment ps)) sb = p @ rb"
    and "p \<noteq> []"
    and "distinct (p @ ra)" and "distinct (p @ rb)"
    and "set ra \<inter> set rb = {}"
  shows "\<exists>c. common_with (from_raw_and_stack hash_of la sa) (from_raw_and_stack hash_of lb sb) = Inr c
           \<and> c \<noteq> []
           \<and> int (length c) \<le> min (stack_depth (from_raw_and_stack hash_of la sa))
                                    (stack_depth (from_raw_and_stack hash_of lb sb))
           \<and> c = p
           \<and> c = longest_common_prefix (stack_hashes (from_raw_and_stack hash_of la sa))
                                        (stack_hashes (from_raw_and_stack hash_of lb sb))"
proof -
  let ?A = "from_raw_and_stack hash_of la sa" and ?B = "from_raw_and_stack hash_of lb sb"
  have cw: "common_with ?A ?B = Inr p"
    using assms by (rule common_with_built)
  have la: "length sa = length p + length ra"
    using assms(1) by (metis length_append length_map)
  have lb: "length sb = length p + length rb"
    using assms(2) by (metis length_append length_map)
  have depth: "int (length p) \<le> min (stack_depth ?A) (stack_depth ?B)"
    using la lb by (simp add: from_raw_and_stack_def Let_def)
  have "longest_common_prefix (p @ ra) (p @ rb) = p @ longest_common_prefix ra rb"
    by (induction p) simp_all
  moreover have "longest_common_prefix ra rb = []"
    using assms(6) by (cases ra; cases rb) auto
  ultimately have lcp: "longest_common_prefix (stack_hashes ?A) (stack_hashes ?B) = p"
    using assms(1,2) by (simp add: from_raw_and_stack_def Let_def)
  show ?thesis
    using cw assms(3) depth lcp by simp
qed

text \<open>
  The paths to two leaves of one tree, every node of which has its own hash, are such
  stacks.
\<close>

lemma distinct_concat_nth:
  "distinct (concat xss) \<Longrightarrow> i < length xss \<Longrightarrow> distinct (xss ! i)"
  by (induction xss arbitrary: i) (auto simp: nth_Cons split: nat.splits)

lemma disjoint_concat_nth:
  "distinct (concat xss) \<Longrightarrow> i < length xss \<Longrightarrow> j < length xss \<Longrightarrow> i \<noteq> j \<Longrightarrow>
     set (xss ! i) \<inter> set (xss ! j) = {}"
proof (induction xss arbitrary: i j)
  case Nil
  then show ?case by simp
next
  case (Cons xs xss)
  have tail: "\<And>k. k < length xss \<Longrightarrow> set xs \<inter> set (xss ! k) = {}"
    using Cons.prems(1) by (auto dest: nth_mem)
  show ?case
  proof (cases i)
    case 0
    with Cons.prems obtain j' where "j = Suc j'" "j' < length xss"
      by (cases j) auto
    with 0 tail show ?thesis by simp
  next
    case (Suc i')
    show ?thesis
    proof (cases j)
      case 0
      with Suc Cons.prems tail [of i'] show ?thesis by auto
    next
      case (Suc j')
      with \<open>i = Suc i'\<close> Cons.prems Cons.IH [of i' j'] show ?thesis by simp
    qed
  qed
qed

lemma path_hashes:
  "path_in t stack l \<Longrightarrow> distinct (tree_hashes hash_of t) \<Longrightarrow>
     distinct (map (\<lambda>ps. hash_of (segment ps)) stack)
     \<and> set (map (\<lambda>ps. hash_of (segment ps)) stack) \<subseteq> set (tree_hashes hash_of t)"
proof (induction rule: path_in.induct)
  case (leaf s)
  show ?case by simp
next
  case (step i cs stack l s)
  let ?H = "map (tree_hashes hash_of) cs"
  have dc: "distinct (concat ?H)" and h: "hash_of s \<notin> set (concat ?H)"
    using step.prems by simp_all
  have "distinct (?H ! i)"
    using dc step.hyps(1) by (intro distinct_concat_nth) simp_all
  then have child: "distinct (tree_hashes hash_of (cs ! i))"
    using step.hyps(1) by simp
  note ih = step.IH [OF child]
  have "cs ! i \<in> set cs"
    using step.hyps(1) by simp
  then have sub: "set (tree_hashes hash_of (cs ! i)) \<subseteq> set (concat ?H)"
    by (simp only: set_concat set_map) blast
  show ?case
    using ih sub h by auto
qed

lemma paths_share_prefix:
  "path_in t sa la \<Longrightarrow> path_in t sb lb \<Longrightarrow> distinct (tree_hashes hash_of t) \<Longrightarrow>
     \<exists>p ra rb. map (\<lambda>ps. hash_of (segment ps)) sa = p @ ra
              \<and> map (\<lambda>ps. hash_of (segment ps)) sb = p @ rb
              \<and> distinct (p @ ra) \<and> distinct (p @ rb) \<and> set ra \<inter> set rb = {}
              \<and> (node_children t \<noteq> [] \<longrightarrow> p \<noteq> [] \<and> hd p = hash_of (node_segment t))"
proof (induction arbitrary: sb lb rule: path_in.induct)
  case (leaf s)
  from leaf.prems(1) have "sb = []"
    by (cases rule: path_in.cases) simp_all
  then show ?case by simp
next
  case (step i cs stack l s)
  let ?hs = "\<lambda>st. map (\<lambda>ps. hash_of (segment ps)) st"
  let ?H = "map (tree_hashes hash_of) cs"
  let ?sa = "\<lparr> segment = s, idx = int i, len = int (length cs) \<rparr> # stack"
  from step.prems(1) step.hyps(1) obtain j stack' where
    j: "j < length cs" and pj: "path_in (cs ! j) stack' lb"
    and sb: "sb = \<lparr> segment = s, idx = int j, len = int (length cs) \<rparr> # stack'"
    by (cases rule: path_in.cases) auto
  have pa: "path_in (Node s cs) ?sa l"
    using step.hyps by (rule path_in.step)
  have da: "distinct (?hs ?sa)"
    using path_hashes [OF pa step.prems(2)] by simp
  have db: "distinct (?hs sb)"
    using path_hashes [OF step.prems(1) step.prems(2)] by simp
  have dc: "distinct (concat ?H)"
    using step.prems(2) by simp
  have ne: "cs \<noteq> []" using j by auto
  show ?case
  proof (cases "i = j")
    case True
    have "distinct (?H ! i)"
      using dc step.hyps(1) by (intro distinct_concat_nth) simp_all
    then have child: "distinct (tree_hashes hash_of (cs ! i))"
      using step.hyps(1) by simp
    from pj True have "path_in (cs ! i) stack' lb" by simp
    from step.IH [OF this child] obtain p ra rb where
      p: "?hs stack = p @ ra" "?hs stack' = p @ rb" "set ra \<inter> set rb = {}"
      by blast
    have "?hs ?sa = (hash_of s # p) @ ra" "?hs sb = (hash_of s # p) @ rb"
      using p sb by simp_all
    moreover have "distinct ((hash_of s # p) @ ra)" "distinct ((hash_of s # p) @ rb)"
      using da db p sb by simp_all
    ultimately show ?thesis
      using p(3) ne by (intro exI [of _ "hash_of s # p"] exI [of _ ra] exI [of _ rb]) simp
  next
    case False
    have "set (?H ! i) \<inter> set (?H ! j) = {}"
      using dc step.hyps(1) j False by (intro disjoint_concat_nth) simp_all
    then have dis: "set (tree_hashes hash_of (cs ! i)) \<inter> set (tree_hashes hash_of (cs ! j)) = {}"
      using step.hyps(1) j by simp
    have "distinct (?H ! i)" "distinct (?H ! j)"
      using dc step.hyps(1) j by (simp_all add: distinct_concat_nth del: nth_map)
    then have "distinct (tree_hashes hash_of (cs ! i))" "distinct (tree_hashes hash_of (cs ! j))"
      using step.hyps(1) j by simp_all
    then have "set (?hs stack) \<subseteq> set (tree_hashes hash_of (cs ! i))"
      "set (?hs stack') \<subseteq> set (tree_hashes hash_of (cs ! j))"
      using path_hashes [OF step.hyps(2)] path_hashes [OF pj] by simp_all
    with dis have "set (?hs stack) \<inter> set (?hs stack') = {}"
      by blast
    moreover have "?hs ?sa = [hash_of s] @ ?hs stack" "?hs sb = [hash_of s] @ ?hs stack'"
      using sb by simp_all
    moreover have "distinct ([hash_of s] @ ?hs stack)" "distinct ([hash_of s] @ ?hs stack')"
      using da db sb by simp_all
    ultimately show ?thesis
      using ne by (intro exI [of _ "[hash_of s]"] exI [of _ "?hs stack"] exI [of _ "?hs stack'"]) simp
  qed
qed

lemma ex_path_a: "path_in ex_tree ex_stack_a (ex_node 4 ''word'')"
proof -
  have "path_in (Node (ex_node 4 ''word'') []) [] (ex_node 4 ''word'')"
    by (rule path_in.leaf)
  then have "path_in (Node (ex_node 2 ''statement'') [Node (ex_node 4 ''word'') []])
               [ex_step 2 ''statement'' 0 1] (ex_node 4 ''word'')"
    using path_in.step [of 0 "[Node (ex_node 4 ''word'') []]" "[]" "ex_node 4 ''word''"
                           "ex_node 2 ''statement''"]
    by (simp add: ex_step_def)
  then show ?thesis
    using path_in.step [of 0 "[Node (ex_node 2 ''statement'') [Node (ex_node 4 ''word'') []],
                              Node (ex_node 3 ''statement'') [Node (ex_node 5 ''word'') []]]"
                           "[ex_step 2 ''statement'' 0 1]" "ex_node 4 ''word''" "ex_node 1 ''file''"]
    by (simp add: ex_tree_def ex_stack_a_def ex_step_def)
qed

lemma ex_path_b: "path_in ex_tree ex_stack_b (ex_node 5 ''word'')"
proof -
  have "path_in (Node (ex_node 5 ''word'') []) [] (ex_node 5 ''word'')"
    by (rule path_in.leaf)
  then have "path_in (Node (ex_node 3 ''statement'') [Node (ex_node 5 ''word'') []])
               [ex_step 3 ''statement'' 0 1] (ex_node 5 ''word'')"
    using path_in.step [of 0 "[Node (ex_node 5 ''word'') []]" "[]" "ex_node 5 ''word''"
                           "ex_node 3 ''statement''"]
    by (simp add: ex_step_def)
  then show ?thesis
    using path_in.step [of 1 "[Node (ex_node 2 ''statement'') [Node (ex_node 4 ''word'') []],
                              Node (ex_node 3 ''statement'') [Node (ex_node 5 ''word'') []]]"
                           "[ex_step 3 ''statement'' 0 1]" "ex_node 5 ''word''" "ex_node 1 ''file''"]
    by (simp add: ex_tree_def ex_stack_b_def ex_step_def)
qed

lemma ex_tree_distinct: "distinct (tree_hashes ex_hash ex_tree)"
  by (simp add: ex_tree_def ex_hash_def ex_node_def)

lemma ex_tree_branch: "node_children ex_tree \<noteq> []"
  by (simp add: ex_tree_def)

text \<open>
  Claim C4. Take two leaves of one tree whose root is a branch and in which every node has
  its own hash (the source: "hashes should be unique"). For the depth infos built from
  the paths to the two leaves \<^verbatim>\<open>common_with\<close> returns a value; it is not empty, it starts
  with the hash of the root, it is not longer than the smaller of the two stack depths,
  and it is the longest common prefix of the two hash stacks.
\<close>

theorem common_with_shared_prefix:
  assumes "path_in t sa la" and "path_in t sb lb"
    and "distinct (tree_hashes hash_of t)" and "node_children t \<noteq> []"
  shows "\<exists>c. common_with (from_raw_and_stack hash_of la sa) (from_raw_and_stack hash_of lb sb) = Inr c
           \<and> c \<noteq> [] \<and> hd c = hash_of (node_segment t)
           \<and> int (length c) \<le> min (stack_depth (from_raw_and_stack hash_of la sa))
                                    (stack_depth (from_raw_and_stack hash_of lb sb))
           \<and> c = longest_common_prefix (stack_hashes (from_raw_and_stack hash_of la sa))
                                        (stack_hashes (from_raw_and_stack hash_of lb sb))"
proof -
  from paths_share_prefix [OF assms(1-3)] assms(4) obtain p ra rb where
    p: "map (\<lambda>ps. hash_of (segment ps)) sa = p @ ra" "map (\<lambda>ps. hash_of (segment ps)) sb = p @ rb"
       "p \<noteq> []" "distinct (p @ ra)" "distinct (p @ rb)" "set ra \<inter> set rb = {}"
    and root: "hd p = hash_of (node_segment t)"
    by blast
  from common_with_stacks [OF p, of la lb] root show ?thesis
    by blast
qed

theorem common_with_shared_prefix_witness:
  "common_with ex_depth_a ex_depth_b = Inr [1]"
proof -
  from common_with_shared_prefix [OF ex_path_a ex_path_b ex_tree_distinct ex_tree_branch]
  obtain c where c: "common_with ex_depth_a ex_depth_b = Inr c"
    and lcp: "c = longest_common_prefix (stack_hashes ex_depth_a) (stack_hashes ex_depth_b)"
    unfolding ex_depth_a_def ex_depth_b_def by blast
  have "longest_common_prefix (stack_hashes ex_depth_a) (stack_hashes ex_depth_b) = [1]"
    by (simp add: ex_depth_a_def ex_depth_b_def from_raw_and_stack_def ex_stack_a_def
          ex_stack_b_def ex_step_def ex_node_def ex_hash_def)
  with c lcp show ?thesis by simp
qed

text \<open>
  Claim C5. For two leaves of one tree, as in C4, \<^verbatim>\<open>common_with\<close> returns in both
  directions, and the two results hold the same set of hashes.
\<close>

theorem common_with_symmetric_set:
  assumes "path_in t sa la" and "path_in t sb lb"
    and "distinct (tree_hashes hash_of t)" and "node_children t \<noteq> []"
  shows "\<exists>c d. common_with (from_raw_and_stack hash_of la sa) (from_raw_and_stack hash_of lb sb) = Inr c
             \<and> common_with (from_raw_and_stack hash_of lb sb) (from_raw_and_stack hash_of la sa) = Inr d
             \<and> set c = set d"
proof -
  from paths_share_prefix [OF assms(1-3)] assms(4) obtain p ra rb where
    p: "map (\<lambda>ps. hash_of (segment ps)) sa = p @ ra" "map (\<lambda>ps. hash_of (segment ps)) sb = p @ rb"
       "p \<noteq> []" "distinct (p @ ra)" "distinct (p @ rb)" "set ra \<inter> set rb = {}"
    by blast
  have ab: "common_with (from_raw_and_stack hash_of la sa) (from_raw_and_stack hash_of lb sb) = Inr p"
    using p by (rule common_with_built)
  have "set rb \<inter> set ra = {}"
    using p(6) by blast
  with p have ba: "common_with (from_raw_and_stack hash_of lb sb) (from_raw_and_stack hash_of la sa) = Inr p"
    by (intro common_with_built)
  show ?thesis
    using ab ba by simp
qed

theorem common_with_symmetric_set_witness:
  "set (projr (common_with ex_depth_a ex_depth_b)) = set (projr (common_with ex_depth_b ex_depth_a))"
  using common_with_symmetric_set [OF ex_path_a ex_path_b ex_tree_distinct ex_tree_branch]
  unfolding ex_depth_a_def ex_depth_b_def
  by auto

text \<open>
  Claim C9. Where this side's hash set and the other side's hashes have nothing in
  common, \<^verbatim>\<open>common_with\<close> fails its assertion and returns no value. And a depth info
  whose hash set is the set of its hashes (as \<^verbatim>\<open>from_raw_and_stack\<close> builds it) never
  gets the empty prefix as a result.
\<close>

theorem common_with_disjoint_raises:
  "(fset (stack_hash_set a) \<inter> set (stack_hashes b) = {} \<longrightarrow> common_with a b = Inl AssertionError)
   \<and> (stack_hash_set a = fset_of_list (stack_hashes a) \<longrightarrow> common_with a b \<noteq> Inr [])"
proof (intro conjI impI)
  assume "fset (stack_hash_set a) \<inter> set (stack_hashes b) = {}"
  then have "fset (stack_hash_set a |\<inter>| fset_of_list (stack_hashes b)) = fset {||}"
    by (simp add: fset_of_list.rep_eq)
  then have "stack_hash_set a |\<inter>| fset_of_list (stack_hashes b) = {||}"
    by (simp only: fset_inject)
  then show "common_with a b = Inl AssertionError"
    by (simp add: common_with_def)
next
  assume wf: "stack_hash_set a = fset_of_list (stack_hashes a)"
  let ?c = "stack_hash_set a |\<inter>| fset_of_list (stack_hashes b)"
  show "common_with a b \<noteq> Inr []"
  proof (cases "?c = {||}")
    case True
    then show ?thesis by (simp add: common_with_def)
  next
    case False
    then obtain x where x: "x |\<in>| ?c" by auto
    then have "x \<in> set (stack_hashes a)"
      using wf by (simp add: fset_of_list.rep_eq)
    then have ne: "stack_hashes a \<noteq> []" by auto
    have "fcard ?c \<noteq> 0"
      using False by (simp only: fcard_0_eq not_False_eq_True)
    then have "take (fcard ?c) (stack_hashes a) \<noteq> []"
      using ne by simp
    then show ?thesis
      using False by (simp add: common_with_def Let_def)
  qed
qed

theorem common_with_disjoint_raises_witness:
  "fset (stack_hash_set ex_depth_a) \<inter> set (stack_hashes ex_depth_c) = {}
   \<and> stack_hash_set ex_depth_a = fset_of_list (stack_hashes ex_depth_a)
   \<and> common_with ex_depth_a ex_depth_c = Inl AssertionError
   \<and> common_with ex_depth_a ex_depth_c \<noteq> Inr []"
  using common_with_disjoint_raises [of ex_depth_a ex_depth_c]
  by (simp add: ex_depth_a_def ex_depth_c_def ex_stack_a_def ex_stack_c_def ex_step_def
        ex_node_def ex_hash_def from_raw_and_stack_def fset_of_list.rep_eq)

section \<open>Results on the constraint resolver\<close>

lemma ex_common_with_ab: "common_with ex_depth_a ex_depth_b = Inr [1]"
  by (simp add: common_with_def ex_depth_a_def ex_depth_b_def from_raw_and_stack_def
        ex_stack_a_def ex_stack_b_def ex_step_def ex_node_def ex_hash_def Let_def
        fcard_finsert_if)

text \<open>
  Claim C2. With a block missing on either side the resolver returns the defaults: the
  previous block's \<^verbatim>\<open>spacing_after\<close> (or \<^verbatim>\<open>single\<close>), the next block's
  \<^verbatim>\<open>spacing_before\<close> (or \<^verbatim>\<open>single\<close>), and the flag as given. With both blocks, and
  \<open>common\<close> their common ancestors, the entry of the previous block's within-map for the
  last of \<open>common\<close> decides: no entry (or an empty one) leaves the defaults; \<^verbatim>\<open>touch\<close> or
  \<^verbatim>\<open>inline\<close> makes each constraint \<^verbatim>\<open>touch\<close> unless it is \<^verbatim>\<open>any\<close>; and \<^verbatim>\<open>inline\<close> makes
  the flag true, where \<^verbatim>\<open>touch\<close> leaves it as given.
\<close>

theorem determine_constraints_defaults_and_override:
  "(prev_block = None \<or> next_block = None \<longrightarrow>
      determine_constraints prev_block next_block strip_newlines =
        Inr (case prev_block of Some pb \<Rightarrow> spacing_after pb | None \<Rightarrow> ''single'',
             case next_block of Some nb \<Rightarrow> spacing_before nb | None \<Rightarrow> ''single'',
             strip_newlines))
   \<and> (\<forall>pb nb common.
         prev_block = Some pb \<and> next_block = Some nb
         \<and> common_with (depth_info pb) (depth_info nb) = Inr common \<and> common \<noteq> [] \<longrightarrow>
           (stack_spacing_configs pb (last common) = None
              \<or> stack_spacing_configs pb (last common) = Some [] \<longrightarrow>
              determine_constraints prev_block next_block strip_newlines =
                Inr (spacing_after pb, spacing_before nb, strip_newlines))
         \<and> (stack_spacing_configs pb (last common) = Some ''touch'' \<longrightarrow>
              determine_constraints prev_block next_block strip_newlines =
                Inr (if spacing_after pb = ''any'' then ''any'' else ''touch'',
                     if spacing_before nb = ''any'' then ''any'' else ''touch'',
                     strip_newlines))
         \<and> (stack_spacing_configs pb (last common) = Some ''inline'' \<longrightarrow>
              determine_constraints prev_block next_block strip_newlines =
                Inr (if spacing_after pb = ''any'' then ''any'' else ''touch'',
                     if spacing_before nb = ''any'' then ''any'' else ''touch'',
                     True)))"
  by (auto simp: determine_constraints_def Let_def split: option.splits)

theorem determine_constraints_defaults_and_override_witness:
  "determine_constraints (Some ex_block_prev) (Some ex_block_next) False
     = Inr (''touch'', ''any'', True)
   \<and> determine_constraints None (Some ex_block_next) False = Inr (''single'', ''any'', False)"
proof -
  have cw: "common_with (depth_info ex_block_prev) (depth_info ex_block_next) = Inr [1]"
    using ex_common_with_ab by (simp add: ex_block_prev_def ex_block_next_def)
  have ov: "stack_spacing_configs ex_block_prev (last [1]) = Some ''inline''"
    by (simp add: ex_block_prev_def)
  have "determine_constraints (Some ex_block_prev) (Some ex_block_next) False
          = Inr (if spacing_after ex_block_prev = ''any'' then ''any'' else ''touch'',
                 if spacing_before ex_block_next = ''any'' then ''any'' else ''touch'',
                 True)"
    using determine_constraints_defaults_and_override
            [of "Some ex_block_prev" "Some ex_block_next" False] cw ov
    by blast
  moreover have "determine_constraints None (Some ex_block_next) False
          = Inr (''single'', spacing_before ex_block_next, False)"
    using determine_constraints_defaults_and_override [of None "Some ex_block_next" False]
    by simp
  ultimately show ?thesis
    by (simp add: ex_block_prev_def ex_block_next_def)
qed

section \<open>Results on the spacing processor\<close>

lemma loop_step:
  "process_spacing_loop strip (s # ss) r lw =
     (case spacing_kind strip s of
        Whitespace \<Rightarrow> process_spacing_loop strip ss r (lw @ [s])
      | Stripped \<Rightarrow> process_spacing_loop strip ss (r @ [s]) lw
      | Break \<Rightarrow> process_spacing_loop strip ss (r @ lw) []
      | Other \<Rightarrow> process_spacing_loop strip ss r lw)"
  by (cases strip) (simp_all add: spacing_kind_def)

declare process_spacing_loop.simps(2) [simp del]

lemma loop_acc:
  "process_spacing_loop strip xs (r1 @ r2) lw =
     (r1 @ fst (process_spacing_loop strip xs r2 lw), snd (process_spacing_loop strip xs r2 lw))"
proof (induction xs arbitrary: r2 lw)
  case Nil
  show ?case by simp
next
  case (Cons s ss)
  show ?case
    by (cases "spacing_kind strip s")
       (simp_all only: loop_step leaf_kind.case Cons.IH append_assoc)
qed

lemma loop_acc_nil:
  "process_spacing_loop strip xs r lw =
     (r @ fst (process_spacing_loop strip xs [] lw), snd (process_spacing_loop strip xs [] lw))"
  using loop_acc [of strip xs r "[]" lw] by simp

lemma loop_step_nil:
  "process_spacing_loop strip (s # ss) [] lw =
     (case spacing_kind strip s of
        Whitespace \<Rightarrow> process_spacing_loop strip ss [] (lw @ [s])
      | Stripped \<Rightarrow> (s # fst (process_spacing_loop strip ss [] lw), snd (process_spacing_loop strip ss [] lw))
      | Break \<Rightarrow> (lw @ fst (process_spacing_loop strip ss [] []), snd (process_spacing_loop strip ss [] []))
      | Other \<Rightarrow> process_spacing_loop strip ss [] lw)"
proof (cases "spacing_kind strip s")
  case Stripped
  then show ?thesis
    using loop_acc_nil [of strip ss "[s]" lw] by (simp add: loop_step)
next
  case Break
  then show ?thesis
    using loop_acc_nil [of strip ss lw "[]"] by (simp add: loop_step)
qed (simp_all add: loop_step)

lemma loop_types:
  assumes "\<forall>x\<in>set lw. spacing_kind strip x = Whitespace"
  shows "(\<forall>x\<in>set (fst (process_spacing_loop strip xs [] lw)). removable strip x \<and> x \<in> set lw \<union> set xs)
       \<and> (\<forall>x\<in>set (snd (process_spacing_loop strip xs [] lw)). spacing_kind strip x = Whitespace \<and> x \<in> set lw \<union> set xs)"
  using assms
proof (induction xs arbitrary: lw)
  case Nil
  then show ?case by simp
next
  case (Cons s ss)
  show ?case
  proof (cases "spacing_kind strip s")
    case Whitespace
    then have "\<forall>x\<in>set (lw @ [s]). spacing_kind strip x = Whitespace" using Cons.prems by simp
    from Cons.IH [OF this] Whitespace show ?thesis by (auto simp: loop_step_nil)
  next
    case Stripped
    with Cons.IH [OF Cons.prems] show ?thesis by (auto simp: loop_step_nil removable_def)
  next
    case Break
    with Cons.IH [of "[]"] Cons.prems show ?thesis by (auto simp: loop_step_nil removable_def)
  next
    case Other
    with Cons.IH [OF Cons.prems] show ?thesis by (auto simp: loop_step_nil)
  qed
qed

lemma loop_filtered:
  assumes "set (fst (process_spacing_loop strip xs [] lw)) \<subseteq> R"
      and "\<forall>x\<in>R. removable strip x"
  shows "process_spacing_loop strip (filter (\<lambda>s. s \<notin> R) xs) [] (filter (\<lambda>s. s \<notin> R) lw)
           = ([], filter (\<lambda>s. s \<notin> R) (snd (process_spacing_loop strip xs [] lw)))"
  using assms(1)
proof (induction xs arbitrary: lw)
  case Nil
  then show ?case by simp
next
  case (Cons s ss)
  show ?case
  proof (cases "spacing_kind strip s")
    case Whitespace
    from Cons.prems Whitespace have "set (fst (process_spacing_loop strip ss [] (lw @ [s]))) \<subseteq> R"
      by (simp add: loop_step_nil)
    from Cons.IH [OF this] Whitespace show ?thesis
      by (cases "s \<in> R") (simp_all add: loop_step_nil)
  next
    case Stripped
    from Cons.prems Stripped have in_R: "s \<in> R" and "set (fst (process_spacing_loop strip ss [] lw)) \<subseteq> R"
      by (simp_all add: loop_step_nil)
    from Cons.IH [OF this(2)] Stripped in_R show ?thesis
      by (simp add: loop_step_nil)
  next
    case Break
    then have out: "s \<notin> R" using assms(2) by (auto simp: removable_def)
    from Cons.prems Break have lw: "set lw \<subseteq> R" and "set (fst (process_spacing_loop strip ss [] [])) \<subseteq> R"
      by (simp_all add: loop_step_nil)
    from lw have "filter (\<lambda>s. s \<notin> R) lw = []" by (auto simp: filter_empty_conv)
    with Cons.IH [of "[]"] \<open>set (fst (process_spacing_loop strip ss [] [])) \<subseteq> R\<close> Break out show ?thesis
      by (simp add: loop_step_nil)
  next
    case Other
    then have out: "s \<notin> R" using assms(2) by (auto simp: removable_def)
    from Cons.prems Other have "set (fst (process_spacing_loop strip ss [] lw)) \<subseteq> R"
      by (simp add: loop_step_nil)
    from Cons.IH [OF this] Other out show ?thesis
      by (simp add: loop_step_nil)
  qed
qed


lemma process_spacing_alt:
  "process_spacing buf strip =
     (filter (\<lambda>s. s \<notin> set (removal_of buf strip)) buf,
      snd (process_spacing_loop strip buf [] []),
      map LintFix_delete (removal_of buf strip))"
proof -
  obtain r lw where loop: "process_spacing_loop strip buf [] [] = (r, lw)"
    by (cases "process_spacing_loop strip buf [] []")
  have "\<not> 2 \<le> length lw \<Longrightarrow> drop 1 lw = []"
    by simp
  then show ?thesis
    using loop by (cases "2 \<le> length lw") (simp_all add: process_spacing_def removal_of_def)
qed

lemma removal_of_removable:
  "\<forall>x\<in>set (removal_of buf strip). removable strip x \<and> x \<in> set buf"
proof -
  have t: "(\<forall>x\<in>set (fst (process_spacing_loop strip buf [] [])). removable strip x \<and> x \<in> set [] \<union> set buf)
       \<and> (\<forall>x\<in>set (snd (process_spacing_loop strip buf [] [])).
             spacing_kind strip x = Whitespace \<and> x \<in> set [] \<union> set buf)"
    by (rule loop_types) simp
  have "set (drop 1 (snd (process_spacing_loop strip buf [] [])))
          \<subseteq> set (snd (process_spacing_loop strip buf [] []))"
    by (rule set_drop_subset)
  then show ?thesis
    using t by (auto simp: removal_of_def removable_def)
qed

lemma filter_keeps_head_only:
  assumes "\<forall>x\<in>set (drop 1 lw). \<not> P x"
  shows "drop 1 (filter P lw) = []"
proof (cases lw)
  case Nil
  then show ?thesis by simp
next
  case (Cons a as)
  with assms have "filter P as = []"
    by (simp add: filter_empty_conv)
  with Cons show ?thesis by simp
qed

lemma removal_of_pruned:
  "removal_of (filter (\<lambda>s. s \<notin> set (removal_of buf strip)) buf) strip = []"
proof -
  let ?R = "set (removal_of buf strip)"
  let ?lw = "snd (process_spacing_loop strip buf [] [])"
  have sub: "set (fst (process_spacing_loop strip buf [] [])) \<subseteq> ?R"
    by (simp add: removal_of_def)
  have rem: "\<forall>x\<in>?R. removable strip x"
    using removal_of_removable by blast
  have "process_spacing_loop strip (filter (\<lambda>s. s \<notin> ?R) buf) [] (filter (\<lambda>s. s \<notin> ?R) [])
          = ([], filter (\<lambda>s. s \<notin> ?R) ?lw)"
    using sub rem by (rule loop_filtered)
  then have second: "process_spacing_loop strip (filter (\<lambda>s. s \<notin> ?R) buf) [] []
          = ([], filter (\<lambda>s. s \<notin> ?R) ?lw)"
    by simp
  have "\<forall>x\<in>set (drop 1 ?lw). \<not> x \<notin> ?R"
    by (simp add: removal_of_def)
  then have "drop 1 (filter (\<lambda>s. s \<notin> ?R) ?lw) = []"
    by (rule filter_keeps_head_only)
  then show ?thesis
    using second by (simp add: removal_of_def [of "filter (\<lambda>s. s \<notin> ?R) buf"])
qed

text \<open>
  Claim C3. The spacing processor is idempotent: run again, with the same flag, on the
  pruned buffer it returned, it returns that buffer unchanged and no deletion edit.
\<close>

theorem process_spacing_idempotent:
  "fst (process_spacing (fst (process_spacing buf strip)) strip) = fst (process_spacing buf strip)
   \<and> snd (snd (process_spacing (fst (process_spacing buf strip)) strip)) = []"
  by (simp add: process_spacing_alt removal_of_pruned)

lemma removable_types:
  "removable strip x \<Longrightarrow> is_type x [''whitespace''] \<or> (strip \<and> is_type x [''newline''])"
  by (auto simp: removable_def spacing_kind_def split: if_splits)

text \<open>
  Claim C10. The pruned buffer is a subsequence of the input; it is the input without the
  leaves the deletion edits are anchored on; every edit returned is a deletion of a leaf of
  the input that is whitespace or (when newlines are stripped) a newline; and a leaf that
  is neither whitespace nor newline is kept.
\<close>

theorem process_spacing_prunes:
  "case process_spacing buf strip of
     (pruned, last_whitespace, new_fixes) \<Rightarrow>
       subseq pruned buf
       \<and> pruned = filter (\<lambda>s. s \<notin> anchor ` set new_fixes) buf
       \<and> (\<forall>f\<in>set new_fixes.
             f = LintFix_delete (anchor f) \<and> anchor f \<in> set buf
             \<and> (is_type (anchor f) [''whitespace''] \<or> (strip \<and> is_type (anchor f) [''newline''])))
       \<and> (\<forall>s\<in>set buf.
             \<not> is_type s [''whitespace''] \<and> \<not> is_type s [''newline''] \<longrightarrow> s \<in> set pruned)"
proof -
  let ?R = "removal_of buf strip"
  have anchors: "anchor ` set (map LintFix_delete ?R) = set ?R"
    by (force simp: LintFix_delete_def)
  have rem: "\<forall>x\<in>set ?R. x \<in> set buf \<and> (is_type x [''whitespace''] \<or> (strip \<and> is_type x [''newline'']))"
    using removal_of_removable removable_types by blast
  have dels: "\<forall>f\<in>set (map LintFix_delete ?R).
                 f = LintFix_delete (anchor f) \<and> anchor f \<in> set buf
                 \<and> (is_type (anchor f) [''whitespace''] \<or> (strip \<and> is_type (anchor f) [''newline'']))"
    using rem by (auto simp: LintFix_delete_def)
  have kept: "\<forall>s\<in>set buf. \<not> is_type s [''whitespace''] \<and> \<not> is_type s [''newline'']
                \<longrightarrow> s \<in> set (filter (\<lambda>s. s \<notin> set ?R) buf)"
    using rem by auto
  show ?thesis
    unfolding process_spacing_alt prod.case anchors
    using dels kept by simp
qed

theorem process_spacing_prunes_witness:
  "process_spacing ex_buffer False
     = ([ex_nl 11, ex_ws 12 1], [ex_ws 12 1, ex_ws 13 3],
        [LintFix_delete (ex_ws 10 1), LintFix_delete (ex_ws 13 3)])
   \<and> subseq [ex_nl 11, ex_ws 12 1] ex_buffer
   \<and> anchor (LintFix_delete (ex_ws 10 1)) \<in> set ex_buffer
   \<and> is_type (anchor (LintFix_delete (ex_ws 10 1))) [''whitespace'']
   \<and> anchor (LintFix_delete (ex_ws 13 3)) \<in> set ex_buffer
   \<and> is_type (anchor (LintFix_delete (ex_ws 13 3))) [''whitespace'']"
proof -
  have run: "process_spacing ex_buffer False
     = ([ex_nl 11, ex_ws 12 1], [ex_ws 12 1, ex_ws 13 3],
        [LintFix_delete (ex_ws 10 1), LintFix_delete (ex_ws 13 3)])"
    by (simp add: process_spacing_def process_spacing_loop.simps ex_buffer_def ex_ws_def
          ex_nl_def is_type_def)
  show ?thesis
    using process_spacing_prunes [of ex_buffer False]
    unfolding run by simp
qed

section \<open>Results on respacing a point\<close>

lemma list_index_Some:
  "x \<in> set xs \<Longrightarrow> \<exists>i. list_index xs x = Some i \<and> i < length xs \<and> take i xs @ drop (Suc i) xs = remove1 x xs"
proof (induction xs)
  case Nil
  then show ?case by simp
next
  case (Cons y ys)
  show ?case
  proof (cases "y = x")
    case True
    then show ?thesis by simp
  next
    case False
    with Cons.prems have "x \<in> set ys" by simp
    from Cons.IH [OF this] False show ?thesis by auto
  qed
qed

lemma loop_no_break:
  assumes "\<forall>x\<in>set xs. spacing_kind strip x \<noteq> Break"
  shows "process_spacing_loop strip xs [] lw =
           (filter (\<lambda>x. spacing_kind strip x = Stripped) xs,
            lw @ filter (\<lambda>x. spacing_kind strip x = Whitespace) xs)"
  using assms
proof (induction xs arbitrary: lw)
  case Nil
  show ?case by simp
next
  case (Cons s ss)
  then have ih: "\<And>lw. process_spacing_loop strip ss [] lw =
           (filter (\<lambda>x. spacing_kind strip x = Stripped) ss,
            lw @ filter (\<lambda>x. spacing_kind strip x = Whitespace) ss)"
    by simp
  from Cons.prems have "spacing_kind strip s \<noteq> Break" by simp
  then show ?case
    by (cases "spacing_kind strip s") (simp_all add: loop_step_nil ih)
qed

lemma break_survives:
  assumes "s \<in> set buf" and "spacing_kind strip s = Break"
  shows "s \<in> set (fst (process_spacing buf strip))"
proof -
  have "s \<notin> set (removal_of buf strip)"
    using removal_of_removable [of buf strip] assms(2) by (auto simp: removable_def)
  then show ?thesis
    using assms(1) by (simp add: process_spacing_alt)
qed

lemma break_is_newline:
  "spacing_kind strip s = Break \<Longrightarrow> is_type s [''newline'', ''end_of_file'']"
  by (auto simp: spacing_kind_def split: if_splits)

lemma no_newline_no_break:
  assumes "\<not> list_ex (\<lambda>seg. is_type seg [''newline'', ''end_of_file'']) (fst (process_spacing buf strip))"
  shows "\<forall>x\<in>set buf. spacing_kind strip x \<noteq> Break"
proof
  fix x assume x: "x \<in> set buf"
  show "spacing_kind strip x \<noteq> Break"
  proof
    assume b: "spacing_kind strip x = Break"
    from break_survives [OF x b] break_is_newline [OF b] assms
    show False by (auto simp: list_ex_iff)
  qed
qed

lemma process_spacing_inline:
  assumes nb: "\<forall>x\<in>set buf. spacing_kind strip x \<noteq> Break"
    and ws: "filter (\<lambda>x. spacing_kind strip x = Whitespace) buf = w0 # wrest"
    and d: "distinct buf"
  shows "process_spacing buf strip =
           (filter (\<lambda>s. s = w0 \<or> spacing_kind strip s = Other) buf,
            w0 # wrest,
            map LintFix_delete (filter (\<lambda>x. spacing_kind strip x = Stripped) buf @ wrest))"
proof -
  let ?S = "filter (\<lambda>x. spacing_kind strip x = Stripped) buf"
  let ?W = "filter (\<lambda>x. spacing_kind strip x = Whitespace) buf"
  have loop: "process_spacing_loop strip buf [] [] = (?S, w0 # wrest)"
    using loop_no_break [OF nb, of "[]"] ws by simp
  then have rem: "removal_of buf strip = ?S @ wrest"
    by (simp add: removal_of_def)
  have "distinct ?W"
    using d by simp
  then have dw: "w0 \<notin> set wrest"
    unfolding ws by simp
  have inW: "s \<in> set (w0 # wrest) \<longleftrightarrow> s \<in> set buf \<and> spacing_kind strip s = Whitespace" for s
  proof -
    have "s \<in> set ?W \<longleftrightarrow> s \<in> set buf \<and> spacing_kind strip s = Whitespace"
      by simp
    then show ?thesis unfolding ws .
  qed
  have "filter (\<lambda>s. s \<notin> set (?S @ wrest)) buf = filter (\<lambda>s. s = w0 \<or> spacing_kind strip s = Other) buf"
  proof (rule filter_cong [OF refl])
    fix s assume s: "s \<in> set buf"
    show "(s \<notin> set (?S @ wrest)) = (s = w0 \<or> spacing_kind strip s = Other)"
    proof (cases "spacing_kind strip s")
      case Whitespace
      then have "s = w0 \<or> s \<in> set wrest"
        using inW [of s] s by simp
      moreover have "s \<notin> set ?S"
        using Whitespace by simp
      ultimately show ?thesis
        using dw Whitespace by auto
    next
      case Stripped
      then have "s \<in> set ?S" using s by simp
      moreover have "s \<noteq> w0"
        using inW [of w0] Stripped by auto
      ultimately show ?thesis
        using Stripped by simp
    next
      case Break
      with nb s show ?thesis by simp
    next
      case Other
      then have "s \<notin> set ?S" by simp
      moreover have "s \<notin> set wrest"
        using inW [of s] Other by auto
      ultimately show ?thesis
        using Other by simp
    qed
  qed
  then show ?thesis
    by (simp add: process_spacing_alt rem loop)
qed

lemma remove1_kept_whitespace:
  assumes d: "distinct buf" and w0: "spacing_kind strip w0 = Whitespace"
  shows "remove1 w0 (filter (\<lambda>s. s = w0 \<or> spacing_kind strip s = Other) buf)
           = filter (\<lambda>s. spacing_kind strip s = Other) buf"
proof -
  let ?P = "\<lambda>s. s = w0 \<or> spacing_kind strip s = Other"
  have "distinct (filter ?P buf)"
    using d by simp
  then have "remove1 w0 (filter ?P buf) = removeAll w0 (filter ?P buf)"
    by (rule distinct_remove1_removeAll)
  also have "\<dots> = filter (\<lambda>s. w0 \<noteq> s) (filter ?P buf)"
    by (simp only: removeAll_filter_not_eq)
  also have "\<dots> = filter (\<lambda>s. ?P s \<and> s \<noteq> w0) buf"
    by (auto intro: filter_cong)
  also have "\<dots> = filter (\<lambda>s. spacing_kind strip s = Other) buf"
  proof (rule filter_cong [OF refl])
    fix s
    show "(?P s \<and> s \<noteq> w0) = (spacing_kind strip s = Other)"
      using w0 by (cases "s = w0") simp_all
  qed
  finally show ?thesis .
qed

lemma respace_point_inline_touch:
  assumes dc: "determine_constraints prev_block next_block strip = Inr (pre, post, strip')"
    and touch: "pre = ''touch'' \<or> post = ''touch''"
    and nany: "pre \<noteq> ''any''" "post \<noteq> ''any''"
    and d: "distinct (segments self)"
    and ws: "filter (\<lambda>x. spacing_kind strip' x = Whitespace) (segments self) = w0 # wrest"
    and nonl: "\<not> list_ex (\<lambda>seg. is_type seg [''newline'', ''end_of_file''])
                   (fst (process_spacing (segments self) strip'))"
  shows "respace_point ops self prev_block next_block root_segment fixes strip u_buf u_fix =
           Inr (fixes @ map LintFix_delete
                          (filter (\<lambda>x. spacing_kind strip' x = Stripped) (segments self) @ wrest @ [w0]),
                \<lparr> segments = filter (\<lambda>s. spacing_kind strip' s = Other) (segments self) \<rparr>)"
proof -
  let ?buf = "segments self"
  let ?pruned = "filter (\<lambda>s. s = w0 \<or> spacing_kind strip' s = Other) ?buf"
  let ?S = "filter (\<lambda>x. spacing_kind strip' x = Stripped) ?buf"
  have nb: "\<forall>x\<in>set ?buf. spacing_kind strip' x \<noteq> Break"
    using nonl by (rule no_newline_no_break)
  have ps: "process_spacing ?buf strip' = (?pruned, w0 # wrest, map LintFix_delete (?S @ wrest))"
    using nb ws d by (rule process_spacing_inline)
  have nonl': "list_ex (\<lambda>seg. is_type seg [''newline'', ''end_of_file'']) ?pruned = False"
    using nonl by (simp only: ps fst_conv)
  have "w0 \<in> set (filter (\<lambda>x. spacing_kind strip' x = Whitespace) ?buf)"
    unfolding ws by simp
  then have w0: "w0 \<in> set ?buf" "spacing_kind strip' w0 = Whitespace"
    by simp_all
  then have "w0 \<in> set ?pruned"
    by simp
  then have "\<exists>i. list_index ?pruned w0 = Some i \<and> i < length ?pruned
                 \<and> take i ?pruned @ drop (Suc i) ?pruned = remove1 w0 ?pruned"
    by (rule list_index_Some)
  then obtain i where i: "list_index ?pruned w0 = Some i"
      and pop: "take i ?pruned @ drop (Suc i) ?pruned = remove1 w0 ?pruned"
    by (elim exE conjE)
  have pop': "take i ?pruned @ drop (Suc i) ?pruned = filter (\<lambda>s. spacing_kind strip' s = Other) ?buf"
    unfolding pop using d w0(2) by (rule remove1_kept_whitespace)
  have hw: "handle_respace_inline_with_space ops pre post next_block root_segment ?pruned (w0 # wrest)
              = Inr (filter (\<lambda>s. spacing_kind strip' s = Other) ?buf, [LintFix_delete w0])"
    unfolding handle_respace_inline_with_space_def
    using touch nany by (simp only: list.case i option.case pop' LintFix_delete_def) simp
  have ne: "(w0 # wrest \<noteq> []) = True"
    by simp
  show ?thesis
    unfolding respace_point_def
    by (simp only: dc sum.case prod.case ps nonl' if_False hw ne if_True map_append append_assoc
          list.map)
qed

lemma kind_other_iff:
  "spacing_kind strip s = Other \<longleftrightarrow> \<not> is_type s [''whitespace''] \<and> \<not> is_type s [''newline'', ''end_of_file'']"
  by (simp add: spacing_kind_def)

lemma kind_whitespace_iff:
  "spacing_kind strip s = Whitespace \<longleftrightarrow> is_type s [''whitespace'']"
  by (simp add: spacing_kind_def)

lemma kind_stripped_not_whitespace:
  "spacing_kind strip s = Stripped \<Longrightarrow> \<not> is_type s [''whitespace'']"
  by (simp add: spacing_kind_def split: if_splits)

lemma mset_removed_leaves:
  assumes "\<forall>x\<in>set buf. spacing_kind strip x \<noteq> Break"
  shows "mset (filter (\<lambda>x. spacing_kind strip x = Stripped) buf)
           + mset (filter (\<lambda>x. spacing_kind strip x = Whitespace) buf)
         = mset (filter (\<lambda>s. spacing_kind strip s \<noteq> Other) buf)"
  using assms
proof (induction buf)
  case Nil
  show ?case by simp
next
  case (Cons s ss)
  then have "spacing_kind strip s \<noteq> Break" by simp
  with Cons show ?case
    by (cases "spacing_kind strip s") simp_all
qed

text \<open>
  Claim C6. A point of distinct leaves, some of them whitespace, with no newline or end of
  file left after pruning, and both resolved constraints \<^verbatim>\<open>touch\<close>: the respaced point has
  no whitespace leaf (it is the input without its whitespace and newline leaves), every
  new edit is a deletion, there is exactly one deletion per leaf removed, and exactly one
  per whitespace leaf of the input.
\<close>

theorem respace_touch_deletes_whitespace:
  assumes dc: "determine_constraints prev_block next_block strip = Inr (''touch'', ''touch'', strip')"
    and d: "distinct (segments self)"
    and has_ws: "\<exists>s\<in>set (segments self). is_type s [''whitespace'']"
    and nonl: "\<not> list_ex (\<lambda>seg. is_type seg [''newline'', ''end_of_file''])
                   (fst (process_spacing (segments self) strip'))"
  shows "\<exists>new_fixes buf'.
           respace_point ops self prev_block next_block root_segment fixes strip u_buf u_fix
             = Inr (fixes @ new_fixes, \<lparr> segments = buf' \<rparr>)
         \<and> filter (\<lambda>s. is_type s [''whitespace'']) buf' = []
         \<and> buf' = filter (\<lambda>s. \<not> is_type s [''whitespace'']
                              \<and> \<not> is_type s [''newline'', ''end_of_file'']) (segments self)
         \<and> (\<forall>f\<in>set new_fixes. f = LintFix_delete (anchor f))
         \<and> mset (map anchor new_fixes) = mset (filter (\<lambda>s. s \<notin> set buf') (segments self))
         \<and> mset (filter (\<lambda>s. is_type s [''whitespace'']) (map anchor new_fixes))
             = mset (filter (\<lambda>s. is_type s [''whitespace'']) (segments self))"
proof -
  let ?buf = "segments self"
  let ?S = "filter (\<lambda>x. spacing_kind strip' x = Stripped) ?buf"
  let ?W = "filter (\<lambda>x. spacing_kind strip' x = Whitespace) ?buf"
  let ?buf' = "filter (\<lambda>s. spacing_kind strip' s = Other) ?buf"
  let ?ws = "\<lambda>s. is_type s [''whitespace'']"
  from has_ws have "?W \<noteq> []"
    by (simp add: filter_empty_conv kind_whitespace_iff)
  then obtain w0 wrest where ws: "?W = w0 # wrest"
    by (cases ?W) simp_all
  let ?R = "?S @ wrest @ [w0]"
  have t: "''touch'' = ''touch'' \<or> ''touch'' = ''touch''" and na: "''touch'' \<noteq> ''any''"
    by simp_all
  have run: "respace_point ops self prev_block next_block root_segment fixes strip u_buf u_fix =
           Inr (fixes @ map LintFix_delete ?R, \<lparr> segments = ?buf' \<rparr>)"
    using dc t na na d ws nonl by (rule respace_point_inline_touch)
  have nb: "\<forall>x\<in>set ?buf. spacing_kind strip' x \<noteq> Break"
    using nonl by (rule no_newline_no_break)
  have anchors: "map anchor (map LintFix_delete ?R) = ?R"
    by (simp add: LintFix_delete_def comp_def)
  have "mset ?R = mset ?S + mset ?W"
    unfolding ws by simp
  also have "\<dots> = mset (filter (\<lambda>s. spacing_kind strip' s \<noteq> Other) ?buf)"
    using nb by (rule mset_removed_leaves)
  also have "filter (\<lambda>s. spacing_kind strip' s \<noteq> Other) ?buf = filter (\<lambda>s. s \<notin> set ?buf') ?buf"
    by (rule filter_cong [OF refl]) simp
  finally have one_each: "mset ?R = mset (filter (\<lambda>s. s \<notin> set ?buf') ?buf)" .
  have fS: "filter ?ws ?S = []"
    by (simp add: filter_empty_conv kind_stripped_not_whitespace)
  have "filter ?ws ?W = ?W"
    by (simp add: kind_whitespace_iff)
  then have fW: "filter ?ws (w0 # wrest) = w0 # wrest"
    unfolding ws .
  then have "?ws w0"
    by (metis filter_eq_ConsD)
  with fW have "filter ?ws wrest = wrest" "filter ?ws [w0] = [w0]"
    by simp_all
  with fS have "filter ?ws ?R = wrest @ [w0]"
    by (simp only: filter_append append_Nil)
  then have "mset (filter ?ws ?R) = mset ?W"
    unfolding ws by simp
  then have ws_each: "mset (filter ?ws ?R) = mset (filter ?ws ?buf)"
    by (simp add: kind_whitespace_iff)
  have shape: "?buf' = filter (\<lambda>s. \<not> is_type s [''whitespace'']
                              \<and> \<not> is_type s [''newline'', ''end_of_file'']) ?buf"
    by (simp add: kind_other_iff)
  have none: "filter ?ws ?buf' = []"
    by (auto simp: filter_empty_conv kind_other_iff)
  have dels: "\<forall>f\<in>set (map LintFix_delete ?R). f = LintFix_delete (anchor f)"
    by (auto simp: LintFix_delete_def)
  show ?thesis
  proof (intro exI conjI)
    show "respace_point ops self prev_block next_block root_segment fixes strip u_buf u_fix
             = Inr (fixes @ map LintFix_delete ?R, \<lparr> segments = ?buf' \<rparr>)"
      by (rule run)
    show "filter ?ws ?buf' = []" by (rule none)
    show "?buf' = filter (\<lambda>s. \<not> is_type s [''whitespace'']
                              \<and> \<not> is_type s [''newline'', ''end_of_file'']) ?buf"
      by (rule shape)
    show "\<forall>f\<in>set (map LintFix_delete ?R). f = LintFix_delete (anchor f)" by (rule dels)
    show "mset (map anchor (map LintFix_delete ?R)) = mset (filter (\<lambda>s. s \<notin> set ?buf') ?buf)"
      unfolding anchors by (rule one_each)
    show "mset (filter ?ws (map anchor (map LintFix_delete ?R))) = mset (filter ?ws ?buf)"
      unfolding anchors by (rule ws_each)
  qed
qed

lemma find_existing_fix_Cons:
  "find_existing_fix ins (f # fs) =
     (if holds_insertion ins f then Some 0 else map_option Suc (find_existing_fix ins fs))"
  by (cases "edit f") (auto simp: holds_insertion_def)

lemma find_existing_fix_None:
  "find_existing_fix ins fs = None \<longleftrightarrow> (\<forall>f\<in>set fs. \<not> holds_insertion ins f)"
  by (induction fs) (simp_all only: find_existing_fix.simps(1) find_existing_fix_Cons, auto)

lemma find_existing_fix_Some:
  "find_existing_fix ins fs = Some i \<Longrightarrow>
     i < length fs \<and> holds_insertion ins (fs ! i) \<and> (\<forall>j<i. \<not> holds_insertion ins (fs ! j))"
proof (induction fs arbitrary: i)
  case Nil
  then show ?case by simp
next
  case (Cons f fs)
  show ?case
  proof (cases "holds_insertion ins f")
    case True
    with Cons.prems have "i = 0"
      by (simp only: find_existing_fix_Cons if_True option.inject)
    with True show ?thesis by simp
  next
    case False
    with Cons.prems have "map_option Suc (find_existing_fix ins fs) = Some i"
      by (simp only: find_existing_fix_Cons if_False)
    then obtain k where k: "find_existing_fix ins fs = Some k" "i = Suc k"
      by (cases "find_existing_fix ins fs") auto
    from Cons.IH [OF k(1)] False k(2) show ?thesis
      by (auto simp: less_Suc_eq_0_disj)
  qed
qed

lemma loop_all_other:
  assumes "\<forall>x\<in>set xs. spacing_kind strip x = Other"
  shows "process_spacing_loop strip xs [] lw = ([], lw)"
  using assms by (induction xs) (simp_all add: loop_step_nil)

lemma process_spacing_plain:
  assumes "\<forall>s\<in>set buf. \<not> is_type s [''whitespace''] \<and> \<not> is_type s [''newline'', ''end_of_file'']"
  shows "process_spacing buf strip = (buf, [], [])"
proof -
  have "\<forall>x\<in>set buf. spacing_kind strip x = Other"
    using assms by (simp add: kind_other_iff)
  then have "process_spacing_loop strip buf [] [] = ([], [])"
    by (rule loop_all_other)
  then show ?thesis
    by (simp add: process_spacing_alt removal_of_def)
qed

lemma respace_point_plain:
  assumes dc: "determine_constraints prev_block next_block strip = Inr (pre, post, strip')"
    and plain: "\<forall>s\<in>set (segments self).
                  \<not> is_type s [''whitespace''] \<and> \<not> is_type s [''newline'', ''end_of_file'']"
  shows "respace_point ops self prev_block next_block root_segment fixes strip u_buf u_fix =
           (case handle_respace_inline_without_space pre post prev_block next_block
                   (segments self) fixes u_buf u_fix of
              Inl e \<Rightarrow> Inl e
            | Inr (segment_buffer', fixes', edited) \<Rightarrow>
                Inr (fixes', \<lparr> segments = segment_buffer' \<rparr>))"
proof -
  have ps: "process_spacing (segments self) strip' = (segments self, [], [])"
    using plain by (rule process_spacing_plain)
  have nonl: "list_ex (\<lambda>seg. is_type seg [''newline'', ''end_of_file'']) (segments self) = False"
    using plain by (simp add: list_ex_iff)
  show ?thesis
    unfolding respace_point_def
    by (simp add: dc ps nonl split: sum.splits prod.splits)
qed

lemma inline_without_space_single:
  "handle_respace_inline_without_space ''single'' ''single'' prev_block next_block buf fixes u_buf u_fix =
     (case detect_existing_fix prev_block next_block of
        Inl e \<Rightarrow> Inl e
      | Inr None \<Rightarrow>
          Inr (buf @ [WhitespaceSegment u_buf],
               fixes @ (case prev_block of
                          Some pb \<Rightarrow> [\<lparr> edit_type = ''create_after'', anchor = last (segments pb),
                                       edit = Some [WhitespaceSegment u_fix] \<rparr>]
                        | None \<Rightarrow>
                            (case next_block of
                               Some nb \<Rightarrow> [\<lparr> edit_type = ''create_before'', anchor = hd (segments nb),
                                            edit = Some [WhitespaceSegment u_fix] \<rparr>]
                             | None \<Rightarrow> [])),
               True)
      | Inr (Some (existing_fix, insertion)) \<Rightarrow>
          (case find_existing_fix insertion fixes of
             None \<Rightarrow> Inl ValueError
           | Some i \<Rightarrow>
               Inr (buf @ [WhitespaceSegment u_buf],
                    fixes[i := (fixes ! i)\<lparr> edit := Some
                       (if existing_fix = ''before''
                        then WhitespaceSegment u_fix # the (edit (fixes ! i))
                        else if existing_fix = ''after''
                        then the (edit (fixes ! i)) @ [WhitespaceSegment u_fix]
                        else the (edit (fixes ! i))) \<rparr>],
                    True)))"
proof (cases "detect_existing_fix prev_block next_block")
  case (Inl e)
  then show ?thesis
    by (simp add: handle_respace_inline_without_space_def)
next
  case (Inr found)
  show ?thesis
  proof (cases found)
    case None
    with Inr show ?thesis
      by (simp add: handle_respace_inline_without_space_def)
  next
    case (Some pair)
    obtain dir ins where pair: "pair = (dir, ins)" by (cases pair)
    show ?thesis
    proof (cases "find_existing_fix ins fixes")
      case None
      with Inr Some pair show ?thesis
        by (simp add: handle_respace_inline_without_space_def)
    next
      case (Some i)
      then have "holds_insertion ins (fixes ! i)"
        by (simp add: find_existing_fix_Some)
      then obtain elems where "edit (fixes ! i) = Some elems"
        by (cases "edit (fixes ! i)") (simp_all add: holds_insertion_def)
      moreover have "fixes \<noteq> []"
        using Some by (cases "fixes") simp_all
      ultimately show ?thesis
        using Inr \<open>found = Some pair\<close> pair Some
        by (simp add: handle_respace_inline_without_space_def Let_def)
    qed
  qed
qed

lemma whitespace_segment_kind:
  "is_type (WhitespaceSegment u) [''whitespace'']"
  by (simp add: WhitespaceSegment_def is_type_def)

text \<open>
  The inline case without whitespace, with a block on at least one side. A point without
  whitespace, newline or end-of-file leaf, both resolved constraints \<^verbatim>\<open>single\<close>, and the
  blocks that are given not empty. One whitespace leaf, one space wide, is appended to
  the buffer. Where no edge leaf is a pending insertion, one creation edit is added: after
  the last leaf of the previous block, or, without a previous block, before the first leaf
  of the next. Where the last leaf of the previous block has no position (or else the
  first leaf of the next block has none), no edit is added: the first pending fix that
  holds that leaf gets the space spliced into its payload, and without such a fix the call
  fails with \<^verbatim>\<open>ValueError\<close>.
\<close>

lemma respace_single_with_block:
  assumes dc: "determine_constraints prev_block next_block strip = Inr (''single'', ''single'', strip')"
    and plain: "\<forall>s\<in>set (segments self).
                  \<not> is_type s [''whitespace''] \<and> \<not> is_type s [''newline'', ''end_of_file'']"
    and nonempty: "\<forall>b. prev_block = Some b \<or> next_block = Some b \<longrightarrow> segments b \<noteq> []"
  shows
    "(\<forall>pb. prev_block = Some pb \<and> pos_marker (last (segments pb)) \<noteq> None
            \<and> (\<forall>nb. next_block = Some nb \<longrightarrow> pos_marker (hd (segments nb)) \<noteq> None) \<longrightarrow>
        respace_point ops self prev_block next_block root_segment fixes strip u_buf u_fix
          = Inr (fixes @ [\<lparr> edit_type = ''create_after'', anchor = last (segments pb),
                            edit = Some [WhitespaceSegment u_fix] \<rparr>],
                 \<lparr> segments = segments self @ [WhitespaceSegment u_buf] \<rparr>))
     \<and> (\<forall>nb. prev_block = None \<and> next_block = Some nb
            \<and> pos_marker (hd (segments nb)) \<noteq> None \<longrightarrow>
        respace_point ops self prev_block next_block root_segment fixes strip u_buf u_fix
          = Inr (fixes @ [\<lparr> edit_type = ''create_before'', anchor = hd (segments nb),
                            edit = Some [WhitespaceSegment u_fix] \<rparr>],
                 \<lparr> segments = segments self @ [WhitespaceSegment u_buf] \<rparr>))
     \<and> (\<forall>pb. prev_block = Some pb \<and> pos_marker (last (segments pb)) = None \<longrightarrow>
        respace_point ops self prev_block next_block root_segment fixes strip u_buf u_fix
          = (case find_existing_fix (last (segments pb)) fixes of
               None \<Rightarrow> Inl ValueError
             | Some i \<Rightarrow>
                 Inr (fixes[i := (fixes ! i)\<lparr> edit :=
                                Some (the (edit (fixes ! i)) @ [WhitespaceSegment u_fix]) \<rparr>],
                      \<lparr> segments = segments self @ [WhitespaceSegment u_buf] \<rparr>)))
     \<and> (\<forall>nb. (\<forall>pb. prev_block = Some pb \<longrightarrow> pos_marker (last (segments pb)) \<noteq> None)
            \<and> next_block = Some nb \<and> pos_marker (hd (segments nb)) = None \<longrightarrow>
        respace_point ops self prev_block next_block root_segment fixes strip u_buf u_fix
          = (case find_existing_fix (hd (segments nb)) fixes of
               None \<Rightarrow> Inl ValueError
             | Some i \<Rightarrow>
                 Inr (fixes[i := (fixes ! i)\<lparr> edit :=
                                Some (WhitespaceSegment u_fix # the (edit (fixes ! i))) \<rparr>],
                      \<lparr> segments = segments self @ [WhitespaceSegment u_buf] \<rparr>)))
     \<and> filter (\<lambda>s. is_type s [''whitespace'']) (segments self @ [WhitespaceSegment u_buf])
           = [WhitespaceSegment u_buf]
     \<and> raw (WhitespaceSegment u_buf) = '' ''"
proof -
  let ?run = "respace_point ops self prev_block next_block root_segment fixes strip u_buf u_fix"
  have run: "?run =
      (case handle_respace_inline_without_space ''single'' ''single'' prev_block next_block
              (segments self) fixes u_buf u_fix of
         Inl e \<Rightarrow> Inl e
       | Inr (segment_buffer', fixes', edited) \<Rightarrow> Inr (fixes', \<lparr> segments = segment_buffer' \<rparr>))"
    using dc plain by (rule respace_point_plain)
  have one: "filter (\<lambda>s. is_type s [''whitespace'']) (segments self @ [WhitespaceSegment u_buf])
           = [WhitespaceSegment u_buf]"
    using plain by (simp add: filter_empty_conv whitespace_segment_kind)
  have width: "raw (WhitespaceSegment u_buf) = '' ''"
    by (simp add: WhitespaceSegment_def)
  have after: "?run = Inr (fixes @ [\<lparr> edit_type = ''create_after'', anchor = last (segments pb),
                            edit = Some [WhitespaceSegment u_fix] \<rparr>],
                 \<lparr> segments = segments self @ [WhitespaceSegment u_buf] \<rparr>)"
    if "prev_block = Some pb" "pos_marker (last (segments pb)) \<noteq> None"
       "\<forall>nb. next_block = Some nb \<longrightarrow> pos_marker (hd (segments nb)) \<noteq> None" for pb
  proof -
    have "segments pb \<noteq> []" using nonempty that(1) by simp
    moreover have "\<And>nb. next_block = Some nb \<Longrightarrow> segments nb \<noteq> []"
      using nonempty by simp
    ultimately have "detect_existing_fix prev_block next_block = Inr None"
      using that by (auto simp: detect_existing_fix_def Let_def split: option.splits list.splits)
    then show ?thesis
      unfolding run inline_without_space_single using that(1) by simp
  qed
  have before: "?run = Inr (fixes @ [\<lparr> edit_type = ''create_before'', anchor = hd (segments nb),
                            edit = Some [WhitespaceSegment u_fix] \<rparr>],
                 \<lparr> segments = segments self @ [WhitespaceSegment u_buf] \<rparr>)"
    if "prev_block = None" "next_block = Some nb" "pos_marker (hd (segments nb)) \<noteq> None" for nb
  proof -
    have "segments nb \<noteq> []" using nonempty that(2) by simp
    then have "detect_existing_fix prev_block next_block = Inr None"
      using that by (auto simp: detect_existing_fix_def Let_def split: option.splits list.splits)
    then show ?thesis
      unfolding run inline_without_space_single using that(1,2) by simp
  qed
  have merge_after: "?run = (case find_existing_fix (last (segments pb)) fixes of
               None \<Rightarrow> Inl ValueError
             | Some i \<Rightarrow>
                 Inr (fixes[i := (fixes ! i)\<lparr> edit :=
                                Some (the (edit (fixes ! i)) @ [WhitespaceSegment u_fix]) \<rparr>],
                      \<lparr> segments = segments self @ [WhitespaceSegment u_buf] \<rparr>))"
    if "prev_block = Some pb" "pos_marker (last (segments pb)) = None" for pb
  proof -
    have "segments pb \<noteq> []" using nonempty that(1) by simp
    then have "detect_existing_fix prev_block next_block = Inr (Some (''after'', last (segments pb)))"
      using that by (simp add: detect_existing_fix_def)
    then show ?thesis
      unfolding run inline_without_space_single by (simp split: option.splits)
  qed
  have merge_before: "?run = (case find_existing_fix (hd (segments nb)) fixes of
               None \<Rightarrow> Inl ValueError
             | Some i \<Rightarrow>
                 Inr (fixes[i := (fixes ! i)\<lparr> edit :=
                                Some (WhitespaceSegment u_fix # the (edit (fixes ! i))) \<rparr>],
                      \<lparr> segments = segments self @ [WhitespaceSegment u_buf] \<rparr>))"
    if "\<forall>pb. prev_block = Some pb \<longrightarrow> pos_marker (last (segments pb)) \<noteq> None"
       "next_block = Some nb" "pos_marker (hd (segments nb)) = None" for nb
  proof -
    have "segments nb \<noteq> []" using nonempty that(2) by simp
    moreover have "\<And>pb. prev_block = Some pb \<Longrightarrow> segments pb \<noteq> []"
      using nonempty by simp
    ultimately have "detect_existing_fix prev_block next_block = Inr (Some (''before'', hd (segments nb)))"
      using that by (auto simp: detect_existing_fix_def Let_def split: option.splits list.splits)
    then show ?thesis
      unfolding run inline_without_space_single by (simp split: option.splits)
  qed
  show ?thesis
    using after before merge_after merge_before one width by blast
qed



lemma ex_constraints_inline:
  "determine_constraints (Some ex_block_prev) (Some ex_block_next_touch) False
     = Inr (''touch'', ''touch'', True)"
  using ex_common_with_ab
  by (simp add: determine_constraints_def ex_block_prev_def ex_block_next_touch_def Let_def)

theorem respace_touch_deletes_whitespace_witness:
  "respace_point ex_ops \<lparr> segments = [ex_ws 12 1, ex_nl 11, ex_ws 13 3] \<rparr>
       (Some ex_block_prev) (Some ex_block_next_touch) ex_root [] False 100 101
     = Inr ([LintFix_delete (ex_nl 11), LintFix_delete (ex_ws 13 3), LintFix_delete (ex_ws 12 1)],
            \<lparr> segments = [] \<rparr>)"
proof -
  let ?p = "\<lparr> segments = [ex_ws 12 1, ex_nl 11, ex_ws 13 3] \<rparr>"
  have d: "distinct (segments ?p)"
    by (simp add: ex_ws_def ex_nl_def)
  have w: "\<exists>s\<in>set (segments ?p). is_type s [''whitespace'']"
    by (simp add: ex_ws_def is_type_def)
  have ps: "process_spacing [ex_ws 12 1, ex_nl 11, ex_ws 13 3] True
              = ([ex_ws 12 1], [ex_ws 12 1, ex_ws 13 3],
                 [LintFix_delete (ex_nl 11), LintFix_delete (ex_ws 13 3)])"
    by (simp add: process_spacing_def process_spacing_loop.simps ex_ws_def ex_nl_def is_type_def)
  have n: "\<not> list_ex (\<lambda>seg. is_type seg [''newline'', ''end_of_file''])
               (fst (process_spacing (segments ?p) True))"
    unfolding ReflowElement.select_convs ps by (simp add: ex_ws_def is_type_def)
  from respace_touch_deletes_whitespace [OF ex_constraints_inline d w n, of ex_ops ex_root "[]" 100 101]
  obtain new_fixes buf' where
    run: "respace_point ex_ops ?p (Some ex_block_prev) (Some ex_block_next_touch) ex_root [] False 100 101
            = Inr ([] @ new_fixes, \<lparr> segments = buf' \<rparr>)"
    and buf': "buf' = filter (\<lambda>s. \<not> is_type s [''whitespace'']
                              \<and> \<not> is_type s [''newline'', ''end_of_file'']) (segments ?p)"
    by blast
  have direct: "respace_point ex_ops ?p (Some ex_block_prev) (Some ex_block_next_touch) ex_root [] False 100 101
     = Inr ([LintFix_delete (ex_nl 11), LintFix_delete (ex_ws 13 3), LintFix_delete (ex_ws 12 1)],
            \<lparr> segments = [] \<rparr>)"
    unfolding respace_point_def
    apply (simp only: ex_constraints_inline sum.case prod.case ReflowElement.select_convs ps)
    apply (simp add: handle_respace_inline_with_space_def LintFix_delete_def
          ex_ws_def ex_nl_def is_type_def)
    done
  show ?thesis
    using run buf' direct by simp
qed

lemma ex_constraints_none:
  "determine_constraints None None strip = Inr (''single'', ''single'', strip)"
  by (simp add: determine_constraints_def)

lemma ex_constraints_plain:
  "determine_constraints (Some ex_block_plain) None False = Inr (''single'', ''single'', False)"
  by (simp add: determine_constraints_def ex_block_plain_def)

lemma ex_constraints_synthetic:
  "determine_constraints (Some ex_block_synthetic) None False = Inr (''single'', ''single'', False)"
  by (simp add: determine_constraints_def ex_block_synthetic_def)

text \<open>
  Claim C1. With no block on either side the source builds a \<^verbatim>\<open>NotImplementedError\<close> and
  does not raise it (the branch for other constraints, a few lines below, does raise). So
  the empty point between no blocks, with both constraints \<^verbatim>\<open>single\<close>, gets its whitespace
  leaf, and the edits come back as they went in: no creation edit is made and none is
  merged into, where the claim has exactly one creation edit or a merge.
\<close>

theorem respace_single_no_blocks:
  "respace_point ex_ops \<lparr> segments = [] \<rparr> None None ex_root [] False 100 101
     = Inr ([], \<lparr> segments = [WhitespaceSegment 100] \<rparr>)"
  unfolding respace_point_def
  apply (simp only: ex_constraints_none sum.case prod.case ReflowElement.select_convs)
  apply (simp add: process_spacing_def handle_respace_inline_without_space_def
        detect_existing_fix_def)
  done

lemma respace_single_with_block_example:
  "respace_point ex_ops \<lparr> segments = [] \<rparr> (Some ex_block_plain) None ex_root [] False 100 101
     = Inr ([\<lparr> edit_type = ''create_after'', anchor = ex_node 4 ''word'',
               edit = Some [WhitespaceSegment 101] \<rparr>],
            \<lparr> segments = [WhitespaceSegment 100] \<rparr>)
   \<and> respace_point ex_ops \<lparr> segments = [] \<rparr> (Some ex_block_synthetic) None ex_root
         [ex_pending_fix] False 100 101
     = Inr ([ex_pending_fix\<lparr> edit := Some [ex_synthetic, WhitespaceSegment 101] \<rparr>],
            \<lparr> segments = [WhitespaceSegment 100] \<rparr>)"
proof -
  let ?p = "\<lparr> segments = [] \<rparr> :: ReflowPoint"
  have plain: "\<forall>s\<in>set (segments ?p).
                 \<not> is_type s [''whitespace''] \<and> \<not> is_type s [''newline'', ''end_of_file'']"
    by simp
  have ne1: "\<forall>b. Some ex_block_plain = Some b \<or> None = Some b \<longrightarrow> segments b \<noteq> []"
    by (simp add: ex_block_plain_def)
  have ne2: "\<forall>b. Some ex_block_synthetic = Some b \<or> None = Some b \<longrightarrow> segments b \<noteq> []"
    by (simp add: ex_block_synthetic_def)
  have pos: "pos_marker (last (segments ex_block_plain)) \<noteq> None"
    by (simp add: ex_block_plain_def ex_node_def)
  have nopos: "pos_marker (last (segments ex_block_synthetic)) = None"
    by (simp add: ex_block_synthetic_def ex_synthetic_def)
  have found: "find_existing_fix (last (segments ex_block_synthetic)) [ex_pending_fix] = Some 0"
    by (simp add: ex_block_synthetic_def ex_pending_fix_def)
  have a: "respace_point ex_ops ?p (Some ex_block_plain) None ex_root [] False 100 101
     = Inr ([] @ [\<lparr> edit_type = ''create_after'', anchor = last (segments ex_block_plain),
               edit = Some [WhitespaceSegment 101] \<rparr>],
            \<lparr> segments = segments ?p @ [WhitespaceSegment 100] \<rparr>)"
    using respace_single_with_block
            [OF ex_constraints_plain plain ne1, of ex_ops ex_root "[]" 100 101] pos
    by simp
  have b: "respace_point ex_ops ?p (Some ex_block_synthetic) None ex_root [ex_pending_fix] False 100 101
     = (case find_existing_fix (last (segments ex_block_synthetic)) [ex_pending_fix] of
          None \<Rightarrow> Inl ValueError
        | Some i \<Rightarrow>
            Inr ([ex_pending_fix][i := ([ex_pending_fix] ! i)\<lparr> edit :=
                     Some (the (edit ([ex_pending_fix] ! i)) @ [WhitespaceSegment 101]) \<rparr>],
                 \<lparr> segments = segments ?p @ [WhitespaceSegment 100] \<rparr>))"
    using respace_single_with_block
            [OF ex_constraints_synthetic plain ne2, of ex_ops ex_root "[ex_pending_fix]" 100 101] nopos
    by (simp del: find_existing_fix.simps)
  show ?thesis
    using a b unfolding found
    by (simp add: ex_block_plain_def ex_pending_fix_def)
qed



section \<open>Results on the alignment resolver\<close>

lemma align_parent_acc:
  "align_parent up w b acc =
     (case filter (\<lambda>ps. is_type_opt (segment ps) w)
             (takeWhile (\<lambda>ps. \<not> is_type_opt (segment ps) b) up
              @ take 1 (dropWhile (\<lambda>ps. \<not> is_type_opt (segment ps) b) up)) of
        [] \<Rightarrow> acc
      | m # ms \<Rightarrow> Some (segment (last (m # ms))))"
proof (induction up arbitrary: acc)
  case Nil
  show ?case by simp
next
  case (Cons ps rest)
  show ?case
  proof (cases "is_type_opt (segment ps) b")
    case True
    then show ?thesis by (simp add: Let_def)
  next
    case False
    show ?thesis
    proof (cases "is_type_opt (segment ps) w")
      case True
      with False Cons.IH [of "Some (segment ps)"] show ?thesis
        by (simp add: Let_def split: list.splits)
    next
      case nw: False
      with False Cons.IH [of acc] show ?thesis
        by (simp add: Let_def)
    qed
  qed
qed

lemma align_parent_matches:
  "align_parent (rev path) w b None =
     (case within_matches path w b of [] \<Rightarrow> None | m # ms \<Rightarrow> Some (segment (last (m # ms))))"
  by (simp only: align_parent_acc within_matches_def searched_steps_def)

lemma sibling_on_same_line_eq:
  assumes "\<forall>sib\<in>set siblings. pos_marker sib \<noteq> None" and "pos_marker next_seg \<noteq> None"
  shows "sibling_on_same_line siblings next_seg = Inr (list_ex (same_line_other_column next_seg) siblings)"
  using assms
  by (induction siblings) (auto simp: same_line_other_column_def split: option.splits)

lemma align_inner_loop_eq:
  assumes "\<forall>sib\<in>set siblings. pos_marker sib \<noteq> None" and "pos_marker seg \<noteq> None"
    and "\<forall>lc. last_code = Some lc \<longrightarrow> pos_marker lc \<noteq> None"
  shows "align_inner_loop ops seg last_code siblings m =
           Inr (Max (insert m (set (case last_code of
                  None \<Rightarrow> []
                | Some lc \<Rightarrow>
                    map (\<lambda>sibling. snd (working_loc_after ops (the (pos_marker lc)) (raw lc)))
                      (filter (\<lambda>sibling. map_option working_loc (pos_marker seg)
                                    = map_option working_loc (pos_marker sibling)) siblings)))))"
  using assms
proof (induction siblings arbitrary: m)
  case Nil
  show ?case by (simp split: option.splits)
next
  case (Cons sib rest)
  then obtain sp gp where sp: "pos_marker sib = Some sp" and gp: "pos_marker seg = Some gp"
    by auto
  have ih: "\<And>m. align_inner_loop ops seg last_code rest m =
           Inr (Max (insert m (set (case last_code of
                  None \<Rightarrow> []
                | Some lc \<Rightarrow>
                    map (\<lambda>sibling. snd (working_loc_after ops (the (pos_marker lc)) (raw lc)))
                      (filter (\<lambda>sibling. map_option working_loc (pos_marker seg)
                                    = map_option working_loc (pos_marker sibling)) rest)))))"
    using Cons by simp
  show ?case
  proof (cases last_code)
    case None
    then show ?thesis using sp gp ih by simp
  next
    case (Some lc)
    with Cons.prems obtain lp where lp: "pos_marker lc = Some lp" by auto
    show ?thesis
    proof (cases "working_loc gp = working_loc sp")
      case False
      then show ?thesis using sp gp ih Some lp by simp
    next
      case True
      let ?e = "snd (working_loc_after ops lp (raw lc))"
      let ?S = "set (map (\<lambda>sibling. ?e)
                      (filter (\<lambda>sibling. map_option working_loc (pos_marker seg)
                                    = map_option working_loc (pos_marker sibling)) rest))"
      have fin: "finite ?S" by simp
      have "Max (insert (if m < ?e then ?e else m) ?S) = Max (insert m (insert ?e ?S))"
      proof (cases "m < ?e")
        case True
        then have "Max (insert m (insert ?e ?S)) = max m (Max (insert ?e ?S))"
          using fin by simp
        also have "\<dots> = Max (insert ?e ?S)"
          using True fin by (simp add: max_def Max_ge_iff)
        finally show ?thesis using True by simp
      next
        case False
        then have "Max (insert m (insert ?e ?S)) = Max (insert ?e (insert m ?S))"
          by (simp add: insert_commute)
        also have "\<dots> = max ?e (Max (insert m ?S))"
          using fin by simp
        also have "\<dots> = Max (insert m ?S)"
          using False fin by (simp add: max_def Max_ge_iff)
        finally show ?thesis using False by simp
      qed
      then show ?thesis using sp gp ih Some lp True by (simp add: Let_def)
    qed
  qed
qed

lemma Max_insert_Max:
  fixes m :: int
  assumes "finite A" and "finite B"
  shows "Max (insert (Max (insert m A)) B) = Max (insert m (A \<union> B))"
proof -
  have "Max (insert m (A \<union> B)) = Max (insert m A \<union> B)"
    by simp
  show ?thesis
  proof (cases "B = {}")
    case True
    then show ?thesis by simp
  next
    case False
    have "Max (insert m A \<union> B) = max (Max (insert m A)) (Max B)"
      using assms False by (intro Max_Un) simp_all
    moreover have "Max (insert (Max (insert m A)) B) = max (Max (insert m A)) (Max B)"
      using assms(2) False by simp
    ultimately show ?thesis by simp
  qed
qed

lemma align_outer_loop_eq:
  assumes "\<forall>sib\<in>set siblings. pos_marker sib \<noteq> None"
    and "\<forall>seg\<in>set leaves. pos_marker seg \<noteq> None"
    and "\<forall>lc. last_code = Some lc \<longrightarrow> pos_marker lc \<noteq> None"
  shows "align_outer_loop ops leaves siblings last_code m =
           Inr (Max (insert m (set (recorded_end_columns ops leaves siblings last_code))))"
  using assms(2,3)
proof (induction leaves arbitrary: last_code m)
  case Nil
  show ?case by simp
next
  case (Cons seg rest)
  let ?A = "case last_code of
                  None \<Rightarrow> []
                | Some lc \<Rightarrow>
                    map (\<lambda>sibling. snd (working_loc_after ops (the (pos_marker lc)) (raw lc)))
                      (filter (\<lambda>sibling. map_option working_loc (pos_marker seg)
                                    = map_option working_loc (pos_marker sibling)) siblings)"
  let ?lc' = "if is_code seg then Some seg else last_code"
  have seg: "pos_marker seg \<noteq> None" using Cons.prems(1) by simp
  have inner: "align_inner_loop ops seg last_code siblings m = Inr (Max (insert m (set ?A)))"
    using assms(1) seg Cons.prems(2) by (rule align_inner_loop_eq)
  have rest: "\<forall>s\<in>set rest. pos_marker s \<noteq> None" using Cons.prems(1) by simp
  have lc': "\<forall>lc. ?lc' = Some lc \<longrightarrow> pos_marker lc \<noteq> None"
    using seg Cons.prems(2) by simp
  have outer: "align_outer_loop ops rest siblings ?lc' (Max (insert m (set ?A))) =
      Inr (Max (insert (Max (insert m (set ?A))) (set (recorded_end_columns ops rest siblings ?lc'))))"
    using rest lc' by (rule Cons.IH)
  have "Max (insert (Max (insert m (set ?A))) (set (recorded_end_columns ops rest siblings ?lc')))
          = Max (insert m (set ?A \<union> set (recorded_end_columns ops rest siblings ?lc')))"
    by (rule Max_insert_Max) (rule finite_set)+
  then show ?case
    by (simp only: align_outer_loop.simps inner sum.case outer recorded_end_columns.simps set_append)
qed

text \<open>
  Claim C7, as amended. The ancestors of the next leaf are searched from the leaf upwards,
  stopping at the first boundary match. Without a \<open>within\<close> match among them the resolver
  returns one space. Otherwise the scope is the outermost match; with the positions of
  the siblings, of the leaves of the scope, of the next leaf and of the whitespace leaf
  known, the resolver returns one space when a sibling lies on the line of the next leaf
  at another column, and else a run of \<open>1 + m - c\<close> spaces (none when that is not
  positive), \<open>m\<close> the greatest recorded end column (0 when nothing is recorded) and \<open>c\<close>
  the working column of the whitespace leaf.
\<close>

theorem determine_aligned_inline_spacing_result:
  "(within_matches (path_to ops root_segment next_seg) align_within align_boundary = [] \<longrightarrow>
      determine_aligned_inline_spacing ops root_segment whitespace_seg next_seg segment_type
        align_within align_boundary = Inr '' '')
   \<and> (\<forall>parent siblings ws_pm.
         within_matches (path_to ops root_segment next_seg) align_within align_boundary \<noteq> []
         \<and> parent = segment (last (within_matches (path_to ops root_segment next_seg)
                                     align_within align_boundary))
         \<and> siblings = align_siblings ops parent segment_type align_boundary
         \<and> (\<forall>sib\<in>set siblings. pos_marker sib \<noteq> None)
         \<and> (\<forall>seg\<in>set (raw_segments ops parent). pos_marker seg \<noteq> None)
         \<and> pos_marker next_seg \<noteq> None
         \<and> pos_marker whitespace_seg = Some ws_pm \<longrightarrow>
           determine_aligned_inline_spacing ops root_segment whitespace_seg next_seg segment_type
             align_within align_boundary
           = (if list_ex (same_line_other_column next_seg) siblings then Inr '' ''
              else Inr (replicate
                          (nat (1 + Max (insert 0 (set (recorded_end_columns ops
                                                     (raw_segments ops parent) siblings None)))
                                - working_line_pos ws_pm))
                          CHR '' '')))"
proof (intro conjI allI impI)
  assume "within_matches (path_to ops root_segment next_seg) align_within align_boundary = []"
  then have "align_parent (rev (path_to ops root_segment next_seg)) align_within align_boundary None = None"
    by (simp add: align_parent_matches)
  then show "determine_aligned_inline_spacing ops root_segment whitespace_seg next_seg segment_type
        align_within align_boundary = Inr '' ''"
    by (simp add: determine_aligned_inline_spacing_def)
next
  fix parent siblings ws_pm
  assume a: "within_matches (path_to ops root_segment next_seg) align_within align_boundary \<noteq> []
         \<and> parent = segment (last (within_matches (path_to ops root_segment next_seg)
                                     align_within align_boundary))
         \<and> siblings = align_siblings ops parent segment_type align_boundary
         \<and> (\<forall>sib\<in>set siblings. pos_marker sib \<noteq> None)
         \<and> (\<forall>seg\<in>set (raw_segments ops parent). pos_marker seg \<noteq> None)
         \<and> pos_marker next_seg \<noteq> None
         \<and> pos_marker whitespace_seg = Some ws_pm"
  then have par: "align_parent (rev (path_to ops root_segment next_seg)) align_within align_boundary None
                    = Some parent"
    by (cases "within_matches (path_to ops root_segment next_seg) align_within align_boundary")
       (simp_all add: align_parent_matches)
  have sibs: "align_siblings ops parent segment_type align_boundary = siblings"
    using a by simp
  have same: "sibling_on_same_line siblings next_seg
                = Inr (list_ex (same_line_other_column next_seg) siblings)"
    using a by (intro sibling_on_same_line_eq) simp_all
  have loop: "align_outer_loop ops (raw_segments ops parent) siblings None 0 =
           Inr (Max (insert 0 (set (recorded_end_columns ops (raw_segments ops parent) siblings None))))"
    using a by (intro align_outer_loop_eq) simp_all
  have ws: "pos_marker whitespace_seg = Some ws_pm"
    using a by simp
  show "determine_aligned_inline_spacing ops root_segment whitespace_seg next_seg segment_type
             align_within align_boundary
           = (if list_ex (same_line_other_column next_seg) siblings then Inr '' ''
              else Inr (replicate
                          (nat (1 + Max (insert 0 (set (recorded_end_columns ops
                                                     (raw_segments ops parent) siblings None)))
                                - working_line_pos ws_pm))
                          CHR '' ''))"
    unfolding determine_aligned_inline_spacing_def
    by (simp only: par option.case Let_def sibs same sum.case loop ws)
       (simp split: bool.splits)
qed

lemma ex_within: "within_matches (path_to (ex_align_ops line col) ex_root ex_x) (Some ''select_clause'') None
          = [\<lparr> segment = ex_select, idx = 2, len = 7 \<rparr>]"
  by (simp add: within_matches_def searched_steps_def ex_align_ops_def is_type_opt_def is_type_def
        ex_select_def ex_root_def ex_node_def ex_leaf_def)

lemma ex_siblings: "align_siblings (ex_align_ops line col) ex_select ''alias'' None = [ex_x, ex_y line col]"
  by (simp add: align_siblings_def ex_align_ops_def is_type_opt_def)

lemma ex_recorded_same_line:
  "recorded_end_columns (ex_align_ops 1 5) (ex_align_leaves 1 5) [ex_x, ex_y 1 5] None = [2, 9]"
  by (simp add: ex_align_leaves_def ex_align_ops_def ex_x_def ex_y_def ex_w1_def ex_leaf_def
        working_loc_def)

lemma ex_recorded_two_lines:
  "recorded_end_columns (ex_align_ops 2 1) (ex_align_leaves 2 1) [ex_x, ex_y 2 1] None = [2, 5]"
  by (simp add: ex_align_leaves_def ex_align_ops_def ex_x_def ex_y_def ex_w1_def ex_leaf_def
        working_loc_def)

lemma ex_same_line_run:
  "determine_aligned_inline_spacing (ex_align_ops 1 5) ex_root ex_w1 ex_x ''alias''
       (Some ''select_clause'') None = Inr '' ''"
proof -
  have par: "align_parent (rev (path_to (ex_align_ops 1 5) ex_root ex_x)) (Some ''select_clause'') None None
               = Some ex_select"
    by (simp add: align_parent_matches ex_within)
  have same: "sibling_on_same_line [ex_x, ex_y 1 5] ex_x = Inr True"
    by (simp add: ex_x_def ex_y_def ex_leaf_def)
  show ?thesis
    unfolding determine_aligned_inline_spacing_def
    by (simp only: par option.case Let_def ex_siblings same sum.case bool.case)
qed

lemma ex_nested_within:
  "within_matches (path_to ex_nested_ops ex_root ex_x) (Some ''select_clause'') None
     = [\<lparr> segment = ex_select, idx = 0, len = 4 \<rparr>, \<lparr> segment = ex_outer, idx = 0, len = 1 \<rparr>]"
  by (simp add: within_matches_def searched_steps_def ex_nested_ops_def is_type_opt_def is_type_def
        ex_select_def ex_outer_def ex_root_def ex_node_def ex_leaf_def)

lemma ex_nested_siblings_outer:
  "align_siblings ex_nested_ops ex_outer ''alias'' None = [ex_x, ex_y 2 1, ex_z]"
  by (simp add: align_siblings_def ex_nested_ops_def is_type_opt_def)

lemma ex_nested_siblings_inner:
  "align_siblings ex_nested_ops ex_select ''alias'' None = [ex_x, ex_y 2 1]"
  by (simp add: align_siblings_def ex_nested_ops_def is_type_opt_def ex_select_def ex_outer_def
        ex_leaf_def)

lemma ex_nested_leaves_inner:
  "raw_segments ex_nested_ops ex_select = ex_align_leaves 2 1"
  by (simp add: ex_nested_ops_def ex_select_def ex_outer_def ex_leaf_def)

lemma ex_nested_recorded_inner:
  "recorded_end_columns ex_nested_ops (ex_align_leaves 2 1) [ex_x, ex_y 2 1] None = [2, 5]"
  by (simp add: ex_align_leaves_def ex_nested_ops_def ex_x_def ex_y_def ex_w1_def ex_leaf_def
        working_loc_def)

lemma ex_nested_run:
  "determine_aligned_inline_spacing ex_nested_ops ex_root ex_w1 ex_x ''alias''
       (Some ''select_clause'') None = Inr (replicate 8 CHR '' '')"
proof -
  have par: "align_parent (rev (path_to ex_nested_ops ex_root ex_x)) (Some ''select_clause'') None None
               = Some ex_outer"
    by (simp add: align_parent_matches ex_nested_within)
  have same: "sibling_on_same_line [ex_x, ex_y 2 1, ex_z] ex_x = Inr False"
    by (simp add: ex_x_def ex_y_def ex_z_def ex_leaf_def)
  have loop: "align_outer_loop ex_nested_ops (raw_segments ex_nested_ops ex_outer)
                [ex_x, ex_y 2 1, ex_z] None 0 = Inr 9"
    by (simp add: ex_nested_ops_def ex_align_leaves_def ex_x_def ex_y_def ex_z_def ex_w1_def
          ex_leaf_def working_loc_def Let_def)
  have ws: "pos_marker ex_w1 = Some \<lparr> working_line_no = 1, working_line_pos = 2 \<rparr>"
    by (simp add: ex_w1_def ex_leaf_def)
  show ?thesis
    unfolding determine_aligned_inline_spacing_def
    by (simp only: par option.case Let_def ex_nested_siblings_outer same sum.case bool.case loop ws)
       simp
qed

lemma ex_far_run:
  "determine_aligned_inline_spacing (ex_align_ops 2 1) ex_root ex_w_far ex_x ''alias''
       (Some ''select_clause'') None = Inr []"
proof -
  have par: "align_parent (rev (path_to (ex_align_ops 2 1) ex_root ex_x)) (Some ''select_clause'') None None
               = Some ex_select"
    by (simp add: align_parent_matches ex_within)
  have same: "sibling_on_same_line [ex_x, ex_y 2 1] ex_x = Inr False"
    by (simp add: ex_x_def ex_y_def ex_leaf_def)
  have loop: "align_outer_loop (ex_align_ops 2 1) (raw_segments (ex_align_ops 2 1) ex_select)
                [ex_x, ex_y 2 1] None 0 = Inr 5"
    by (simp add: ex_align_ops_def ex_align_leaves_def ex_x_def ex_y_def ex_w1_def
          ex_leaf_def working_loc_def Let_def)
  have ws: "pos_marker ex_w_far = Some \<lparr> working_line_no = 1, working_line_pos = 20 \<rparr>"
    by (simp add: ex_w_far_def ex_leaf_def)
  show ?thesis
    unfolding determine_aligned_inline_spacing_def
    by (simp only: par option.case Let_def ex_siblings same sum.case bool.case loop ws)
       simp
qed

lemma ex_none_run:
  "determine_aligned_inline_spacing (ex_align_ops 2 1) ex_root ex_w1 ex_x ''word''
       (Some ''select_clause'') None = Inr []"
proof -
  have par: "align_parent (rev (path_to (ex_align_ops 2 1) ex_root ex_x)) (Some ''select_clause'') None None
               = Some ex_select"
    by (simp add: align_parent_matches ex_within)
  have sibs: "align_siblings (ex_align_ops 2 1) ex_select ''word'' None = []"
    by (simp add: align_siblings_def ex_align_ops_def)
  have loop: "align_outer_loop (ex_align_ops 2 1) (raw_segments (ex_align_ops 2 1) ex_select)
                [] None 0 = Inr 0"
    by (simp add: ex_align_ops_def ex_align_leaves_def)
  have ws: "pos_marker ex_w1 = Some \<lparr> working_line_no = 1, working_line_pos = 2 \<rparr>"
    by (simp add: ex_w1_def ex_leaf_def)
  show ?thesis
    unfolding determine_aligned_inline_spacing_def
    by (simp only: par option.case Let_def sibs sibling_on_same_line.simps sum.case bool.case loop ws)
       simp
qed

text \<open>
  Claim C7 as stated fails at four inputs, one for each change of the amended claim.
  (1) A sibling shares the line of the next leaf: the scope is found, the recorded end
  columns are 2 and 9 and the whitespace leaf is at column 2, so the claim asks for 8
  spaces; the resolver returns one. (2) Two nested \<open>within\<close> matches and no boundary:
  the nearest match records the end columns 2 and 5, which would give 4 spaces; the
  resolver takes the outer match as the scope and returns 8. (3) The whitespace leaf is at
  column 20 and the greatest recorded end column is 5: there is no run of \<open>-14\<close> spaces;
  the resolver returns the empty text. (4) The scope holds no sibling, so nothing is
  recorded and there is no maximum; the resolver counts from 0 and returns the empty text.
\<close>

theorem aligned_spacing_counterexample:
  "determine_aligned_inline_spacing (ex_align_ops 1 5) ex_root ex_w1 ex_x ''alias''
       (Some ''select_clause'') None = Inr '' ''
   \<and> within_matches (path_to (ex_align_ops 1 5) ex_root ex_x) (Some ''select_clause'') None \<noteq> []
   \<and> recorded_end_columns (ex_align_ops 1 5) (raw_segments (ex_align_ops 1 5) ex_select)
         (align_siblings (ex_align_ops 1 5) ex_select ''alias'' None) None = [2, 9]
   \<and> pos_marker ex_w1 = Some \<lparr> working_line_no = 1, working_line_pos = 2 \<rparr>
   \<and> nat (1 + Max (set [2, 9 :: int]) - 2) = 8
   \<and> determine_aligned_inline_spacing ex_nested_ops ex_root ex_w1 ex_x ''alias''
       (Some ''select_clause'') None = Inr (replicate 8 CHR '' '')
   \<and> within_matches (path_to ex_nested_ops ex_root ex_x) (Some ''select_clause'') None
       = [\<lparr> segment = ex_select, idx = 0, len = 4 \<rparr>, \<lparr> segment = ex_outer, idx = 0, len = 1 \<rparr>]
   \<and> recorded_end_columns ex_nested_ops (raw_segments ex_nested_ops ex_select)
         (align_siblings ex_nested_ops ex_select ''alias'' None) None = [2, 5]
   \<and> nat (1 + Max (set [2, 5 :: int]) - 2) = 4
   \<and> determine_aligned_inline_spacing (ex_align_ops 2 1) ex_root ex_w_far ex_x ''alias''
       (Some ''select_clause'') None = Inr []
   \<and> recorded_end_columns (ex_align_ops 2 1) (raw_segments (ex_align_ops 2 1) ex_select)
         (align_siblings (ex_align_ops 2 1) ex_select ''alias'' None) None = [2, 5]
   \<and> pos_marker ex_w_far = Some \<lparr> working_line_no = 1, working_line_pos = 20 \<rparr>
   \<and> 1 + Max (set [2, 5 :: int]) - 20 = - 14
   \<and> determine_aligned_inline_spacing (ex_align_ops 2 1) ex_root ex_w1 ex_x ''word''
       (Some ''select_clause'') None = Inr []
   \<and> within_matches (path_to (ex_align_ops 2 1) ex_root ex_x) (Some ''select_clause'') None \<noteq> []
   \<and> recorded_end_columns (ex_align_ops 2 1) (raw_segments (ex_align_ops 2 1) ex_select)
         (align_siblings (ex_align_ops 2 1) ex_select ''word'' None) None = []"
proof -
  have raws: "raw_segments (ex_align_ops line col) ex_select = ex_align_leaves line col" for line col
    by (simp add: ex_align_ops_def)
  have a: "within_matches (path_to (ex_align_ops line col) ex_root ex_x) (Some ''select_clause'') None \<noteq> []"
    for line col
    by (simp add: ex_within)
  have b: "recorded_end_columns (ex_align_ops 1 5) (raw_segments (ex_align_ops 1 5) ex_select)
         (align_siblings (ex_align_ops 1 5) ex_select ''alias'' None) None = [2, 9]"
    by (simp only: raws ex_siblings ex_recorded_same_line)
  have c: "pos_marker ex_w1 = Some \<lparr> working_line_no = 1, working_line_pos = 2 \<rparr>"
    by (simp add: ex_w1_def ex_leaf_def)
  have d: "nat (1 + Max (set [2, 9 :: int]) - 2) = 8" "nat (1 + Max (set [2, 5 :: int]) - 2) = 4"
    "1 + Max (set [2, 5 :: int]) - 20 = - 14"
    by simp_all
  have e: "recorded_end_columns ex_nested_ops (raw_segments ex_nested_ops ex_select)
         (align_siblings ex_nested_ops ex_select ''alias'' None) None = [2, 5]"
    by (simp only: ex_nested_leaves_inner ex_nested_siblings_inner ex_nested_recorded_inner)
  have f: "recorded_end_columns (ex_align_ops 2 1) (raw_segments (ex_align_ops 2 1) ex_select)
         (align_siblings (ex_align_ops 2 1) ex_select ''alias'' None) None = [2, 5]"
    by (simp only: raws ex_siblings ex_recorded_two_lines)
  have g: "pos_marker ex_w_far = Some \<lparr> working_line_no = 1, working_line_pos = 20 \<rparr>"
    by (simp add: ex_w_far_def ex_leaf_def)
  have h: "recorded_end_columns (ex_align_ops 2 1) (raw_segments (ex_align_ops 2 1) ex_select)
         (align_siblings (ex_align_ops 2 1) ex_select ''word'' None) None = []"
    by (simp add: align_siblings_def ex_align_ops_def ex_align_leaves_def)
  from ex_same_line_run a [of 1 5] b c d ex_nested_run ex_nested_within e ex_far_run f g
    ex_none_run a [of 2 1] h
  show ?thesis
    by blast
qed

theorem determine_aligned_inline_spacing_result_witness:
  "determine_aligned_inline_spacing (ex_align_ops 2 1) ex_root ex_w1 ex_x ''alias''
       (Some ''select_clause'') None = Inr ''    ''
   \<and> determine_aligned_inline_spacing (ex_align_ops 2 1) ex_root ex_w1 ex_x ''alias''
       (Some ''from_clause'') None = Inr '' ''"
proof -
  let ?ops = "ex_align_ops 2 1"
  have raws: "raw_segments ?ops ex_select = ex_align_leaves 2 1"
    by (simp add: ex_align_ops_def)
  have m: "within_matches (path_to ?ops ex_root ex_x) (Some ''select_clause'') None \<noteq> []"
    and p: "ex_select = segment (last (within_matches (path_to ?ops ex_root ex_x) (Some ''select_clause'') None))"
    by (simp_all add: ex_within)
  have s: "[ex_x, ex_y 2 1] = align_siblings ?ops ex_select ''alias'' None"
    by (simp add: ex_siblings)
  have sp: "\<forall>sib\<in>set [ex_x, ex_y 2 1]. pos_marker sib \<noteq> None"
    by (simp add: ex_x_def ex_y_def ex_leaf_def)
  have lp: "\<forall>seg\<in>set (raw_segments ?ops ex_select). pos_marker seg \<noteq> None"
    unfolding raws by (simp add: ex_align_leaves_def ex_x_def ex_y_def ex_w1_def ex_leaf_def)
  have np: "pos_marker ex_x \<noteq> None"
    by (simp add: ex_x_def ex_leaf_def)
  have wp: "pos_marker ex_w1 = Some \<lparr> working_line_no = 1, working_line_pos = 2 \<rparr>"
    by (simp add: ex_w1_def ex_leaf_def)
  have nosame: "list_ex (same_line_other_column ex_x) [ex_x, ex_y 2 1] = False"
    by (simp add: same_line_other_column_def ex_x_def ex_y_def ex_leaf_def)
  have none: "within_matches (path_to ?ops ex_root ex_x) (Some ''from_clause'') None = []"
    by (simp add: within_matches_def searched_steps_def ex_align_ops_def is_type_opt_def is_type_def
        ex_select_def ex_root_def ex_node_def ex_leaf_def)
  have a: "determine_aligned_inline_spacing ?ops ex_root ex_w1 ex_x ''alias'' (Some ''select_clause'') None
      = (if list_ex (same_line_other_column ex_x) [ex_x, ex_y 2 1] then Inr '' ''
              else Inr (replicate
                          (nat (1 + Max (insert 0 (set (recorded_end_columns ?ops
                                                     (raw_segments ?ops ex_select) [ex_x, ex_y 2 1] None)))
                                - working_line_pos \<lparr> working_line_no = 1, working_line_pos = 2 \<rparr>))
                          CHR '' ''))"
    using determine_aligned_inline_spacing_result
            [of ?ops ex_root ex_x "Some ''select_clause''" None ex_w1 "''alias''"]
          m p s sp lp np wp
    by blast
  have b: "determine_aligned_inline_spacing ?ops ex_root ex_w1 ex_x ''alias'' (Some ''from_clause'') None
      = Inr '' ''"
    using determine_aligned_inline_spacing_result
            [of ?ops ex_root ex_x "Some ''from_clause''" None ex_w1 "''alias''"] none
    by blast
  have "replicate (nat (1 + Max (insert 0 (set [2, 5 :: int])) - 2)) CHR '' '' = ''    ''"
    by (simp add: numeral_eq_Suc)
  then show ?thesis
    using a b unfolding nosame raws ex_recorded_two_lines by simp
qed

end
